theory Spec2Isabelle
  imports Main "HOL-Library.Sublist" "HOL-Library.Multiset"
begin

section \<open>Data model of \<^verbatim>\<open>src/utils/attestations.ts\<close>\<close>

text \<open>
  Hashes, schema identifiers, addresses and encoded payloads are hex strings in the
  source; they are compared with \<^verbatim>\<open>===\<close>, that is, as strings.
\<close>

type_synonym hexstring = string

text \<open>\<^verbatim>\<open>ethers.constants.HashZero\<close> and \<^verbatim>\<open>ethers.constants.AddressZero\<close>.\<close>

definition HashZero :: hexstring where
  "HashZero = ''0x'' @ replicate 64 (CHR ''0'')"

definition AddressZero :: hexstring where
  "AddressZero = ''0x'' @ replicate 40 (CHR ''0'')"

text \<open>
  The recipient of an encoded attestation is an optional string: the generators of the
  repository pass a string or \<^verbatim>\<open>null\<close>, and the field may be missing.
\<close>

datatype jsstring = Undefined | Null | Str string

text \<open>\<^verbatim>\<open>EncodedAttestation\<close>: the fields \<^verbatim>\<open>pack\<close> reads.\<close>

record EncodedAttestation =
  enc_schema :: hexstring
  enc_recipient :: jsstring
  enc_data :: hexstring

text \<open>\<^verbatim>\<open>AttestationRequestData\<close> (the field \<^verbatim>\<open>value\<close> is \<open>att_value\<close> here).\<close>

record AttestationRequestData =
  recipient :: hexstring
  expirationTime :: int
  revocable :: bool
  refUID :: hexstring
  att_data :: hexstring
  att_value :: int

text \<open>\<^verbatim>\<open>MultiAttestationRequest\<close>: a schema and its ordered attestations.\<close>

record MultiAttestationRequest =
  schema :: hexstring
  data :: "AttestationRequestData list"

datatype error = Error string

section \<open>\<^verbatim>\<open>pack\<close>\<close>

text \<open>\<^verbatim>\<open>x || d\<close> on an optional string: every falsy \<open>x\<close> gives \<open>d\<close>.\<close>

fun js_or :: "jsstring \<Rightarrow> string \<Rightarrow> string" where
  "js_or Undefined d = d"
| "js_or Null d = d"
| "js_or (Str s) d = (if s = [] then d else s)"

text \<open>The object literal pushed at lines 29 to 36.\<close>

definition request_data :: "EncodedAttestation \<Rightarrow> AttestationRequestData" where
  "request_data attestation =
     \<lparr> recipient = js_or (enc_recipient attestation) AddressZero,
       expirationTime = 0,
       revocable = False,
       refUID = HashZero,
       att_data = enc_data attestation,
       att_value = 0 \<rparr>"

text \<open>
  \<^verbatim>\<open>entry.data.push(d)\<close> on the object \<^verbatim>\<open>acc.find\<close> returns: the first element of
  \<open>acc\<close> with that schema is updated in place.
\<close>

fun push_data :: "hexstring \<Rightarrow> AttestationRequestData \<Rightarrow> MultiAttestationRequest list
    \<Rightarrow> MultiAttestationRequest list" where
  "push_data s d [] = []"
| "push_data s d (entry # acc) =
     (if schema entry = s then entry\<lparr>data := data entry @ [d]\<rparr> # acc
      else entry # push_data s d acc)"

text \<open>The reducer: find the entry of the schema, create it at the end if there is none, push.\<close>

definition pack_step :: "MultiAttestationRequest list \<Rightarrow> EncodedAttestation
    \<Rightarrow> MultiAttestationRequest list" where
  "pack_step acc attestation =
     (let acc' = (case List.find (\<lambda>entry. schema entry = enc_schema attestation) acc of
                    None \<Rightarrow> acc @ [\<lparr> schema = enc_schema attestation, data = [] \<rparr>]
                  | Some entry \<Rightarrow> acc)
      in push_data (enc_schema attestation) (request_data attestation) acc')"

definition pack :: "EncodedAttestation list \<Rightarrow> MultiAttestationRequest list" where
  "pack attestations = foldl pack_step [] attestations"

section \<open>\<^verbatim>\<open>hash\<close>, \<^verbatim>\<open>verify\<close>, \<^verbatim>\<open>rehash\<close>\<close>

text \<open>
  \<^verbatim>\<open>ethers.utils.keccak256\<close> and \<^verbatim>\<open>ethers.utils.defaultAbiCoder.encode\<close> belong to a
  library outside the repository: they are the parameters \<open>keccak256\<close> and \<open>encode\<close>.
\<close>

type_synonym keccak = "hexstring \<Rightarrow> hexstring"
type_synonym abi_coder = "hexstring \<Rightarrow> hexstring \<Rightarrow> AttestationRequestData \<Rightarrow> hexstring"

definition hash :: "keccak \<Rightarrow> abi_coder \<Rightarrow> hexstring \<Rightarrow> hexstring \<Rightarrow> AttestationRequestData
    \<Rightarrow> hexstring" where
  "hash keccak256 encode vhash s attestation = keccak256 (encode vhash s attestation)"

text \<open>The inner and the outer loop of \<^verbatim>\<open>verify\<close>, on the running value \<open>computed\<close>.\<close>

definition verify_entry :: "keccak \<Rightarrow> abi_coder \<Rightarrow> hexstring \<Rightarrow> MultiAttestationRequest
    \<Rightarrow> hexstring" where
  "verify_entry keccak256 encode computed entry =
     foldl (\<lambda>c attestation. hash keccak256 encode c (schema entry) attestation)
       computed (data entry)"

definition verify :: "keccak \<Rightarrow> abi_coder \<Rightarrow> hexstring \<Rightarrow> MultiAttestationRequest list
    \<Rightarrow> bool" where
  "verify keccak256 encode vhash requests =
     (let computed = foldl (verify_entry keccak256 encode) HashZero requests
      in computed = vhash)"

text \<open>
  \<^verbatim>\<open>rehash\<close>. The inner loop works on \<open>(computed, found, updated.data)\<close>, the outer one on
  \<open>(rehashed, computed, found)\<close>.
\<close>

definition rehash_data :: "keccak \<Rightarrow> abi_coder \<Rightarrow> hexstring \<Rightarrow> hexstring
    \<Rightarrow> hexstring \<times> bool \<times> AttestationRequestData list \<Rightarrow> AttestationRequestData
    \<Rightarrow> hexstring \<times> bool \<times> AttestationRequestData list" where
  "rehash_data keccak256 encode vhash s st d =
     (case st of (computed, found, updated) \<Rightarrow>
        (let computed' = hash keccak256 encode computed s d in
         if computed' = vhash then (computed', True, updated)
         else if found then (computed', found, updated @ [d])
         else (computed', found, updated)))"

definition rehash_request :: "keccak \<Rightarrow> abi_coder \<Rightarrow> hexstring
    \<Rightarrow> MultiAttestationRequest list \<times> hexstring \<times> bool \<Rightarrow> MultiAttestationRequest
    \<Rightarrow> MultiAttestationRequest list \<times> hexstring \<times> bool" where
  "rehash_request keccak256 encode vhash st request =
     (case st of (rehashed, computed, found) \<Rightarrow>
        (case foldl (rehash_data keccak256 encode vhash (schema request))
                (computed, found, []) (data request) of
           (computed', found', updated) \<Rightarrow>
             (if found' \<and> length updated > 0
              then rehashed @ [\<lparr> schema = schema request, data = updated \<rparr>]
              else rehashed,
              computed', found')))"

definition rehash :: "keccak \<Rightarrow> abi_coder \<Rightarrow> hexstring \<Rightarrow> MultiAttestationRequest list
    \<Rightarrow> error + MultiAttestationRequest list" where
  "rehash keccak256 encode vhash requests =
     (case foldl (rehash_request keccak256 encode vhash) ([], HashZero, False) requests of
        (rehashed, computed, found) \<Rightarrow>
          if \<not> found then
            (if vhash = HashZero then Inr requests
             else Inl (Error ''verification hash mismatch''))
          else Inr rehashed)"

section \<open>\<^verbatim>\<open>slice\<close>\<close>

text \<open>
  \<^verbatim>\<open>attester.estimateGas.attest\<close> is an external call: it resolves to an estimate or
  throws an error with a message. An estimator is that call for a fixed sender, on the
  schema and the attestations of the one request it is given.
\<close>

datatype estimate = Estimate int | Throws string

type_synonym estimator = "hexstring \<Rightarrow> AttestationRequestData list \<Rightarrow> estimate"

text \<open>
  The attester as \<^verbatim>\<open>slice\<close> uses it: the method \<^verbatim>\<open>estimateGas.attest\<close>, which may be
  undefined and which takes the sender \<^verbatim>\<open>from\<close>; the gas limit of the block that
  \<^verbatim>\<open>provider.getBlock('latest')\<close> resolves to; and the address that \<^verbatim>\<open>$admin()\<close> resolves
  to. Each of the two calls may fail instead.
\<close>

record attester =
  estimateGas_attest :: "(hexstring \<Rightarrow> estimator) option"
  getBlock_gasLimit :: "error + int"
  admin :: "error + hexstring"

text \<open>\<^verbatim>\<open>s.includes(t)\<close>.\<close>

definition str_includes :: "string \<Rightarrow> string \<Rightarrow> bool" where
  "str_includes s t = sublist t s"

text \<open>
  \<^verbatim>\<open>Array.prototype.slice(start, end)\<close>: a negative index counts from the end, and both
  are clamped to the array.
\<close>

definition js_index :: "int \<Rightarrow> nat \<Rightarrow> nat" where
  "js_index i len = (if i < 0 then nat (max (int len + i) 0) else min (nat i) len)"

definition js_slice :: "'a list \<Rightarrow> int \<Rightarrow> int \<Rightarrow> 'a list" where
  "js_slice xs start stop =
     (let k = js_index start (length xs); final = js_index stop (length xs)
      in take (final - k) (drop k xs))"

text \<open>
  The binary search of lines 79 to 110 on \<open>lo\<close> and \<open>hi\<close>; it returns the final \<open>lo\<close>,
  or the error it rethrows.
\<close>

function bsearch :: "estimator \<Rightarrow> int \<Rightarrow> MultiAttestationRequest \<Rightarrow> int \<Rightarrow> int \<Rightarrow> int
    \<Rightarrow> error + int" where
  "bsearch est limit request start lo hi =
     (if lo \<le> hi then
        (let mid = (lo + hi) div 2 in
         case est (schema request) (js_slice (data request) start mid) of
           Estimate e \<Rightarrow>
             if e > limit - 100000 then bsearch est limit request start lo (mid - 1)
             else bsearch est limit request start (mid + 1) hi
         | Throws message \<Rightarrow>
             if str_includes message ''exceeds gas limit''
                \<or> str_includes message ''cannot estimate gas''
             then bsearch est limit request start lo (mid - 1)
             else Inl (Error message))
      else Inr lo)"
  by pat_completeness auto
termination
  by (relation "measure (\<lambda>(est, limit, request, start, lo, hi). nat (hi - lo + 1))") auto

declare bsearch.simps [simp del]

text \<open>
  The loop of lines 73 to 120 on \<open>start\<close> and \<open>sliced\<close>. It is not known to end, so the
  result is an option: \<open>None\<close> is a loop that runs forever.
\<close>

partial_function (option) slice_request :: "estimator \<Rightarrow> int \<Rightarrow> MultiAttestationRequest
    \<Rightarrow> int \<Rightarrow> MultiAttestationRequest list \<Rightarrow> (error + MultiAttestationRequest list) option"
  where
  "slice_request est limit request start sliced =
     (if start < int (length (data request)) then
        (case bsearch est limit request start start (int (length (data request))) of
           Inl err \<Rightarrow> Some (Inl err)
         | Inr lo \<Rightarrow>
             slice_request est limit request lo
               (sliced @ [\<lparr> schema = schema request,
                            data = js_slice (data request) start (max start (lo - 1)) \<rparr>]))
      else Some (Inr sliced))"

declare slice_request.simps [code]

text \<open>The loop of line 69 over the requests.\<close>

fun slice_requests :: "estimator \<Rightarrow> int \<Rightarrow> MultiAttestationRequest list
    \<Rightarrow> MultiAttestationRequest list \<Rightarrow> (error + MultiAttestationRequest list) option" where
  "slice_requests est limit [] sliced = Some (Inr sliced)"
| "slice_requests est limit (request # requests) sliced =
     (case slice_request est limit request 0 sliced of
        None \<Rightarrow> None
      | Some (Inl err) \<Rightarrow> Some (Inl err)
      | Some (Inr sliced') \<Rightarrow> slice_requests est limit requests sliced')"

definition slice :: "attester \<Rightarrow> MultiAttestationRequest list
    \<Rightarrow> (error + MultiAttestationRequest list) option" where
  "slice att requests =
     (case estimateGas_attest att of
        None \<Rightarrow> Some (Inl (Error ''attest method not found''))
      | Some attest \<Rightarrow>
          (case getBlock_gasLimit att of
             Inl err \<Rightarrow> Some (Inl err)
           | Inr gasLimit \<Rightarrow>
               (case admin att of
                  Inl err \<Rightarrow> Some (Inl err)
                | Inr sender \<Rightarrow> slice_requests (attest sender) gasLimit requests [])))"

section \<open>The properties, in the words of the specification\<close>

text \<open>The elements of a list in the order of their first occurrence.\<close>

fun first_seen :: "'a list \<Rightarrow> 'a list" where
  "first_seen [] = []"
| "first_seen (x # xs) = x # removeAll x (first_seen xs)"

definition stable_grouping :: "EncodedAttestation list \<Rightarrow> MultiAttestationRequest list" where
  "stable_grouping attestations =
     map (\<lambda>s. \<lparr> schema = s,
                data = map request_data (filter (\<lambda>a. enc_schema a = s) attestations) \<rparr>)
       (first_seen (map enc_schema attestations))"

text \<open>
  The attestations of a collection in collection order, each with the schema of its
  request: the sequence the verification hash runs over.
\<close>

definition flatten :: "MultiAttestationRequest list \<Rightarrow> (hexstring \<times> AttestationRequestData) list"
  where
  "flatten requests = concat (map (\<lambda>request. map (Pair (schema request)) (data request)) requests)"

text \<open>The fold of \<open>hash\<close> over a sequence of attestations, from the commitment \<open>c\<close>.\<close>

definition foldHash :: "keccak \<Rightarrow> abi_coder \<Rightarrow> hexstring
    \<Rightarrow> (hexstring \<times> AttestationRequestData) list \<Rightarrow> hexstring" where
  "foldHash keccak256 encode c entries =
     foldl (\<lambda>h (s, attestation). hash keccak256 encode h s attestation) c entries"

text \<open>
  Stand-ins for the two library functions, for the places where a theorem is evaluated at
  a concrete collection: the encoding is a concatenation and the digest is the encoding
  itself, so that the successive commitments of a collection all differ.
\<close>

definition demo_keccak256 :: keccak where
  "demo_keccak256 bytes = bytes"

definition demo_encode :: abi_coder where
  "demo_encode vhash s attestation = vhash @ s @ recipient attestation @ att_data attestation"

definition demo_attestations :: "EncodedAttestation list" where
  "demo_attestations =
     [\<lparr> enc_schema = ''A'', enc_recipient = Str ''0x01'', enc_data = ''r1'' \<rparr>,
      \<lparr> enc_schema = ''B'', enc_recipient = Null, enc_data = ''r2'' \<rparr>,
      \<lparr> enc_schema = ''A'', enc_recipient = Str '''', enc_data = ''r3'' \<rparr>]"

text \<open>
  The collection left after the first \<open>k\<close> attestations are removed, each remaining
  attestation under the schema of its request; and that collection without its empty
  requests.
\<close>

fun drop_entries :: "nat \<Rightarrow> MultiAttestationRequest list \<Rightarrow> MultiAttestationRequest list" where
  "drop_entries k [] = []"
| "drop_entries k (request # requests) =
     (if k \<le> length (data request)
      then \<lparr> schema = schema request, data = drop k (data request) \<rparr> # requests
      else drop_entries (k - length (data request)) requests)"

definition remaining :: "nat \<Rightarrow> MultiAttestationRequest list \<Rightarrow> MultiAttestationRequest list"
  where
  "remaining k requests = filter (\<lambda>request. data request \<noteq> []) (drop_entries k requests)"

text \<open>The running commitments after each attestation of a sequence, from \<open>c\<close>.\<close>

fun commitments :: "keccak \<Rightarrow> abi_coder \<Rightarrow> hexstring
    \<Rightarrow> (hexstring \<times> AttestationRequestData) list \<Rightarrow> hexstring list" where
  "commitments keccak256 encode c [] = []"
| "commitments keccak256 encode c ((s, attestation) # entries) =
     hash keccak256 encode c s attestation
       # commitments keccak256 encode (hash keccak256 encode c s attestation) entries"

definition demo_entry :: "string \<Rightarrow> AttestationRequestData" where
  "demo_entry payload =
     \<lparr> recipient = ''0x01'', expirationTime = 0, revocable = False, refUID = HashZero,
       att_data = payload, att_value = 0 \<rparr>"

definition demo_requests :: "MultiAttestationRequest list" where
  "demo_requests =
     [\<lparr> schema = ''A'', data = [demo_entry ''r1'', demo_entry ''r2''] \<rparr>,
      \<lparr> schema = ''B'', data = [] \<rparr>,
      \<lparr> schema = ''C'', data = [demo_entry ''r3''] \<rparr>]"

text \<open>
  The two failures the binary search takes for an estimate over the limit, and an
  estimator with the estimate \<open>c\<close> in the place of each of them.
\<close>

definition exceeds_limit_failure :: "string \<Rightarrow> bool" where
  "exceeds_limit_failure message =
     (str_includes message ''exceeds gas limit'' \<or> str_includes message ''cannot estimate gas'')"

definition failure_as_estimate :: "int \<Rightarrow> estimator \<Rightarrow> estimator" where
  "failure_as_estimate c est s d =
     (case est s d of
        Estimate e \<Rightarrow> Estimate e
      | Throws message \<Rightarrow> if exceeds_limit_failure message then Estimate c else Throws message)"

text \<open>Estimators and an attester for the places where \<open>slice\<close> is evaluated.\<close>

definition two_exceed :: estimator where
  "two_exceed s d = (if 2 \<le> length d then Throws ''exceeds gas limit'' else Estimate 21000)"

definition always_reverts :: estimator where
  "always_reverts s d =
     Throws ''cannot estimate gas; transaction may fail or may require manual gas limit''"

definition two_fail :: estimator where
  "two_fail s d = (if 2 \<le> length d then Throws ''network error'' else Estimate 21000)"

definition at_margin :: estimator where
  "at_margin s d = Estimate 29900000"

definition demo_attester :: "estimator \<Rightarrow> attester" where
  "demo_attester est =
     \<lparr> estimateGas_attest = Some (\<lambda>sender. est), getBlock_gasLimit = Inr 30000000,
       admin = Inr ''0xad'' \<rparr>"

definition demo_request :: MultiAttestationRequest where
  "demo_request = \<lparr> schema = ''A'', data = [demo_entry ''r1'', demo_entry ''r3''] \<rparr>"

text \<open>
  A request is accepted when the estimator gives an estimate for it that the binary search
  does not reject, and strictly under the margin when that estimate is less than the gas
  limit minus 100000.
\<close>

definition accepted :: "estimator \<Rightarrow> int \<Rightarrow> MultiAttestationRequest \<Rightarrow> bool" where
  "accepted est limit request =
     (\<exists>e. est (schema request) (data request) = Estimate e \<and> e \<le> limit - 100000)"

definition strictly_under :: "estimator \<Rightarrow> int \<Rightarrow> MultiAttestationRequest \<Rightarrow> bool" where
  "strictly_under est limit request =
     (\<exists>e. est (schema request) (data request) = Estimate e \<and> e < limit - 100000)"

text \<open>
  The probes that a call of \<open>slice\<close> comes to. A probe is a request, the start index of
  the range and its end \<open>mid\<close>: the estimator is asked for the attestations
  \<^verbatim>\<open>request.data.slice(start, mid)\<close>. The binary search on \<open>lo\<close> and \<open>hi\<close> probes its middle
  and goes on in the half the answer selects; the loop over a request searches from its
  start index and goes on from the \<open>lo\<close> a search returns; the loop over the requests
  goes on to the next request when the loop over a request returns.
\<close>

inductive search_probes :: "estimator \<Rightarrow> int \<Rightarrow> MultiAttestationRequest \<Rightarrow> int \<Rightarrow> int \<Rightarrow> int
    \<Rightarrow> int \<Rightarrow> bool" where
  middle: "lo \<le> hi \<Longrightarrow> search_probes est limit request start lo hi ((lo + hi) div 2)"
| over: "lo \<le> hi \<Longrightarrow>
     est (schema request) (js_slice (data request) start ((lo + hi) div 2)) = Estimate e \<Longrightarrow>
     e > limit - 100000 \<Longrightarrow>
     search_probes est limit request start lo ((lo + hi) div 2 - 1) mid \<Longrightarrow>
     search_probes est limit request start lo hi mid"
| under: "lo \<le> hi \<Longrightarrow>
     est (schema request) (js_slice (data request) start ((lo + hi) div 2)) = Estimate e \<Longrightarrow>
     \<not> e > limit - 100000 \<Longrightarrow>
     search_probes est limit request start ((lo + hi) div 2 + 1) hi mid \<Longrightarrow>
     search_probes est limit request start lo hi mid"
| narrowed: "lo \<le> hi \<Longrightarrow>
     est (schema request) (js_slice (data request) start ((lo + hi) div 2)) = Throws message \<Longrightarrow>
     str_includes message ''exceeds gas limit'' \<or> str_includes message ''cannot estimate gas'' \<Longrightarrow>
     search_probes est limit request start lo ((lo + hi) div 2 - 1) mid \<Longrightarrow>
     search_probes est limit request start lo hi mid"

inductive request_probes :: "estimator \<Rightarrow> int \<Rightarrow> MultiAttestationRequest \<Rightarrow> int \<Rightarrow> int \<Rightarrow> int
    \<Rightarrow> bool" where
  search: "start < int (length (data request)) \<Longrightarrow>
     search_probes est limit request start start (int (length (data request))) mid \<Longrightarrow>
     request_probes est limit request start start mid"
| turn: "start < int (length (data request)) \<Longrightarrow>
     bsearch est limit request start start (int (length (data request))) = Inr lo \<Longrightarrow>
     request_probes est limit request lo start' mid \<Longrightarrow>
     request_probes est limit request start start' mid"

inductive slice_probes :: "estimator \<Rightarrow> int \<Rightarrow> MultiAttestationRequest list
    \<Rightarrow> MultiAttestationRequest list \<Rightarrow> MultiAttestationRequest \<Rightarrow> int \<Rightarrow> int \<Rightarrow> bool" where
  first: "request_probes est limit request 0 start mid \<Longrightarrow>
     slice_probes est limit (request # requests) sliced request start mid"
| later: "slice_request est limit request 0 sliced = Some (Inr sliced') \<Longrightarrow>
     slice_probes est limit requests sliced' request' start mid \<Longrightarrow>
     slice_probes est limit (request # requests) sliced request' start mid"

code_pred search_probes .

code_pred request_probes .

code_pred slice_probes .

text \<open>An estimator that fails on two attestations of schema \<open>B\<close>, and such a request.\<close>

definition second_fails :: estimator where
  "second_fails s d =
     (if s = ''B'' \<and> 2 \<le> length d then Throws ''network error'' else Estimate 21000)"

definition demo_request_B :: MultiAttestationRequest where
  "demo_request_B = \<lparr> schema = ''B'', data = [demo_entry ''r2'', demo_entry ''r4''] \<rparr>"

section \<open>\<^verbatim>\<open>pack\<close> groups by schema\<close>

lemma set_first_seen [simp]: "set (first_seen xs) = set xs"
  by (induction xs) auto

lemma distinct_first_seen [simp]: "distinct (first_seen xs)"
  by (induction xs) (auto simp: distinct_removeAll)

lemma first_seen_snoc:
  "first_seen (xs @ [y]) = (if y \<in> set xs then first_seen xs else first_seen xs @ [y])"
  by (induction xs) auto

lemma find_schema_None:
  "(List.find (\<lambda>entry. schema entry = s) acc = None) = (s \<notin> schema ` set acc)"
  by (auto simp: find_None_iff)

lemma push_data_new:
  "s \<notin> schema ` set acc \<Longrightarrow>
   push_data s d (acc @ [\<lparr> schema = s, data = ds \<rparr>]) = acc @ [\<lparr> schema = s, data = ds @ [d] \<rparr>]"
  by (induction acc) auto

lemma push_data_map:
  "distinct ss \<Longrightarrow>
   push_data s d (map (\<lambda>t. \<lparr> schema = t, data = g t \<rparr>) ss)
     = map (\<lambda>t. \<lparr> schema = t, data = (if t = s then g t @ [d] else g t) \<rparr>) ss"
  by (induction ss) auto

lemma pack_step_grouping:
  "pack_step (stable_grouping xs) a = stable_grouping (xs @ [a])"
proof (cases "enc_schema a \<in> set (map enc_schema xs)")
  case True
  then have "List.find (\<lambda>entry. schema entry = enc_schema a) (stable_grouping xs) \<noteq> None"
    by (auto simp: find_schema_None stable_grouping_def image_iff)
  then show ?thesis using True
    by (auto simp: pack_step_def stable_grouping_def first_seen_snoc push_data_map)
next
  case False
  then have n: "enc_schema a \<notin> schema ` set (stable_grouping xs)"
    by (auto simp: stable_grouping_def)
  then have fnd: "List.find (\<lambda>entry. schema entry = enc_schema a) (stable_grouping xs) = None"
    by (simp add: find_schema_None)
  have step: "pack_step (stable_grouping xs) a
      = stable_grouping xs @ [\<lparr> schema = enc_schema a, data = [request_data a] \<rparr>]"
    using push_data_new [OF n, of "request_data a" "[]"] by (simp add: pack_step_def fnd)
  have f: "filter (\<lambda>b. enc_schema b = enc_schema a) xs = []"
    using False by (auto simp: filter_empty_conv image_iff)
  have m: "map (\<lambda>s. \<lparr> schema = s,
                data = map request_data (filter (\<lambda>b. enc_schema b = s) (xs @ [a])) \<rparr>)
             (first_seen (map enc_schema xs)) = stable_grouping xs"
    unfolding stable_grouping_def using False by (intro map_cong) auto
  have "stable_grouping (xs @ [a])
      = stable_grouping xs @ [\<lparr> schema = enc_schema a, data = [request_data a] \<rparr>]"
    using False m by (simp add: stable_grouping_def [of "xs @ [a]"] first_seen_snoc f)
  with step show ?thesis by simp
qed

lemma foldl_pack_step_grouping:
  "foldl pack_step (stable_grouping xs) ys = stable_grouping (xs @ ys)"
proof (induction ys arbitrary: xs)
  case Nil
  show ?case by simp
next
  case (Cons y ys)
  show ?case using Cons.IH [of "xs @ [y]"] by (simp add: pack_step_grouping)
qed

lemma pack_stable_grouping: "pack xs = stable_grouping xs"
  using foldl_pack_step_grouping [of "[]" xs] by (simp add: pack_def stable_grouping_def)

lemma mset_push_data:
  "s \<in> schema ` set acc \<Longrightarrow>
   mset (concat (map data (push_data s d acc))) = add_mset d (mset (concat (map data acc)))"
  by (induction acc) auto

lemma mset_pack_step:
  "mset (concat (map data (pack_step acc a)))
     = add_mset (request_data a) (mset (concat (map data acc)))"
proof (cases "List.find (\<lambda>entry. schema entry = enc_schema a) acc")
  case None
  then show ?thesis
    by (simp add: pack_step_def mset_push_data)
next
  case (Some e)
  then have "enc_schema a \<in> schema ` set acc"
    using find_schema_None [of "enc_schema a" acc] by auto
  then show ?thesis using Some
    by (simp add: pack_step_def mset_push_data)
qed

lemma mset_foldl_pack_step:
  "mset (concat (map data (foldl pack_step acc xs)))
     = mset (map request_data xs) + mset (concat (map data acc))"
  by (induction xs arbitrary: acc) (auto simp: mset_pack_step)

lemma mset_pack: "mset (concat (map data (pack xs))) = mset (map request_data xs)"
  by (simp add: pack_def mset_foldl_pack_step)

text \<open>
  C5. Packing is a stable grouping by schema: the output is one request per schema, in the
  order in which the schemas first occur in the input; the data of each request are the
  attestations of that schema, in input order; and the attestations of the output are those
  of the input, each once.
\<close>

theorem pack_groups_by_schema:
  "pack attestations = stable_grouping attestations
   \<and> distinct (map schema (pack attestations))
   \<and> map schema (pack attestations) = first_seen (map enc_schema attestations)
   \<and> (\<forall>entry \<in> set (pack attestations).
         data entry
           = map request_data (filter (\<lambda>a. enc_schema a = schema entry) attestations))
   \<and> mset (concat (map data (pack attestations))) = mset (map request_data attestations)"
proof -
  have m: "map schema (stable_grouping attestations) = first_seen (map enc_schema attestations)"
    by (simp add: stable_grouping_def comp_def)
  have d: "\<forall>entry \<in> set (stable_grouping attestations).
      data entry = map request_data (filter (\<lambda>a. enc_schema a = schema entry) attestations)"
    by (auto simp: stable_grouping_def)
  show ?thesis
    using m d by (simp add: pack_stable_grouping mset_pack [unfolded pack_stable_grouping])
qed

theorem pack_groups_by_schema_witness:
  "pack demo_attestations =
     [\<lparr> schema = ''A'', data = [request_data (demo_attestations ! 0),
                                 request_data (demo_attestations ! 2)] \<rparr>,
      \<lparr> schema = ''B'', data = [request_data (demo_attestations ! 1)] \<rparr>]
   \<and> map schema (pack demo_attestations) = [''A'', ''B'']"
proof -
  have "pack demo_attestations = stable_grouping demo_attestations"
    using pack_groups_by_schema [of demo_attestations] by blast
  also have "stable_grouping demo_attestations =
     [\<lparr> schema = ''A'', data = [request_data (demo_attestations ! 0),
                                 request_data (demo_attestations ! 2)] \<rparr>,
      \<lparr> schema = ''B'', data = [request_data (demo_attestations ! 1)] \<rparr>]"
    by (simp add: stable_grouping_def demo_attestations_def)
  finally show ?thesis
    by simp
qed

text \<open>
  C10. Every attestation in the output of \<open>pack\<close> comes from an input attestation, with the
  zero address as recipient when the input has none (undefined, null or the empty string)
  and the given recipient otherwise, and with the fixed fields expirationTime 0, revocable
  false, refUID zero and value 0; its recipient is never empty.
\<close>

theorem pack_entry_fields:
  assumes "e \<in> set (concat (map data (pack attestations)))"
  shows "\<exists>a \<in> set attestations.
           e = request_data a
           \<and> (enc_recipient a = Undefined \<or> enc_recipient a = Null \<or> enc_recipient a = Str []
                \<longrightarrow> recipient e = AddressZero)
           \<and> (\<forall>s. enc_recipient a = Str s \<and> s \<noteq> [] \<longrightarrow> recipient e = s)
           \<and> att_data e = enc_data a
           \<and> expirationTime e = 0 \<and> \<not> revocable e \<and> refUID e = HashZero \<and> att_value e = 0
           \<and> recipient e \<noteq> []"
proof -
  have "e \<in># mset (concat (map data (pack attestations)))"
    using assms by simp
  then have "e \<in> request_data ` set attestations"
    by (simp add: mset_pack)
  then obtain a where a: "a \<in> set attestations" "e = request_data a"
    by auto
  have "recipient (request_data a) \<noteq> []"
    by (cases "enc_recipient a") (auto simp: request_data_def AddressZero_def)
  then show ?thesis
    using a by (intro bexI [of _ a]) (auto simp: request_data_def)
qed

theorem pack_entry_fields_witness:
  "\<lparr> recipient = AddressZero, expirationTime = 0, revocable = False, refUID = HashZero,
      att_data = ''r3'', att_value = 0 \<rparr> \<in> set (concat (map data (pack demo_attestations)))
   \<and> (\<exists>a \<in> set demo_attestations.
         enc_data a = ''r3''
         \<and> request_data a = \<lparr> recipient = AddressZero, expirationTime = 0, revocable = False,
              refUID = HashZero, att_data = ''r3'', att_value = 0 \<rparr>)"
proof -
  let ?e = "\<lparr> recipient = AddressZero, expirationTime = 0, revocable = False,
      refUID = HashZero, att_data = ''r3'', att_value = 0 \<rparr>"
  have h: "?e \<in> set (concat (map data (pack demo_attestations)))"
    by (simp add: pack_def pack_step_def demo_attestations_def request_data_def)
  have "\<exists>a \<in> set demo_attestations. ?e = request_data a \<and> att_data ?e = enc_data a"
    using pack_entry_fields [OF h] by blast
  then have "\<exists>a \<in> set demo_attestations. enc_data a = ''r3'' \<and> request_data a = ?e"
    by auto
  with h show ?thesis by blast
qed

section \<open>\<^verbatim>\<open>verify\<close> folds the hash\<close>

lemma flatten_Nil [simp]: "flatten [] = []"
  by (simp add: flatten_def)

lemma flatten_Cons:
  "flatten (request # requests) = map (Pair (schema request)) (data request) @ flatten requests"
  by (simp add: flatten_def)

lemma foldHash_Nil [simp]: "foldHash K E c [] = c"
  by (simp add: foldHash_def)

lemma foldHash_Cons [simp]: "foldHash K E c ((s, a) # es) = foldHash K E (hash K E c s a) es"
  by (simp add: foldHash_def)

lemma foldHash_append: "foldHash K E c (xs @ ys) = foldHash K E (foldHash K E c xs) ys"
  by (simp add: foldHash_def)

lemma verify_entry_foldHash:
  "verify_entry K E c entry = foldHash K E c (map (Pair (schema entry)) (data entry))"
  by (simp add: verify_entry_def foldHash_def foldl_map)

lemma verify_loop_foldHash:
  "foldl (verify_entry K E) c requests = foldHash K E c (flatten requests)"
  by (induction requests arbitrary: c)
    (simp_all add: flatten_Cons foldHash_append verify_entry_foldHash)

text \<open>
  C8. For every collection, the fold of \<open>hash\<close> from the zero commitment over all its
  attestations in collection order is accepted by \<open>verify\<close> for that collection.
\<close>

theorem verify_foldHash:
  "verify keccak256 encode (foldHash keccak256 encode HashZero (flatten requests)) requests"
  by (simp add: verify_def verify_loop_foldHash)

text \<open>
  C9. For a collection without attestations (no request, or only requests with empty
  data), \<open>verify\<close> accepts exactly the zero commitment, whatever the two hashing functions
  are: none of them is applied.
\<close>

theorem verify_empty_collection:
  assumes "flatten requests = []"
  shows "verify keccak256 encode vhash requests = (vhash = HashZero)"
  using assms by (auto simp: verify_def verify_loop_foldHash)

theorem verify_empty_collection_witness:
  "flatten [\<lparr> schema = ''A'', data = [] \<rparr>, \<lparr> schema = ''B'', data = [] \<rparr>] = []
   \<and> verify demo_keccak256 demo_encode HashZero
        [\<lparr> schema = ''A'', data = [] \<rparr>, \<lparr> schema = ''B'', data = [] \<rparr>]
   \<and> \<not> verify demo_keccak256 demo_encode AddressZero
        [\<lparr> schema = ''A'', data = [] \<rparr>, \<lparr> schema = ''B'', data = [] \<rparr>]"
proof -
  have h: "flatten [\<lparr> schema = ''A'', data = [] \<rparr>, \<lparr> schema = ''B'', data = [] \<rparr>] = []"
    by (simp add: flatten_def)
  have "AddressZero \<noteq> HashZero"
    by (simp add: AddressZero_def HashZero_def)
  then show ?thesis
    using h verify_empty_collection [OF h, of demo_keccak256 demo_encode HashZero]
      verify_empty_collection [OF h, of demo_keccak256 demo_encode AddressZero]
    by simp
qed

section \<open>The loops of \<^verbatim>\<open>rehash\<close>\<close>

lemma commitments_append:
  "commitments K E c (xs @ ys) = commitments K E c xs @ commitments K E (foldHash K E c xs) ys"
  by (induction xs arbitrary: c) auto

lemma length_commitments [simp]: "length (commitments K E c xs) = length xs"
  by (induction xs arbitrary: c) auto

lemma commitments_nth:
  "j < length xs \<Longrightarrow> commitments K E c xs ! j = foldHash K E c (take (Suc j) xs)"
proof (induction xs arbitrary: c j)
  case Nil
  then show ?case by simp
next
  case (Cons x xs)
  obtain s a where x: "x = (s, a)" by (cases x)
  show ?case using Cons by (cases j) (simp_all add: x)
qed

text \<open>The inner loop of \<open>rehash\<close> on a request none of whose commitments is the target.\<close>

lemma rehash_data_no_match:
  "vhash \<notin> set (commitments K E c (map (Pair s) ds)) \<Longrightarrow>
   foldl (rehash_data K E vhash s) (c, found, updated) ds
     = (foldHash K E c (map (Pair s) ds), found, if found then updated @ ds else updated)"
  by (induction ds arbitrary: c updated) (auto simp: rehash_data_def Let_def)

text \<open>The inner loop on a request where exactly the commitment at index \<open>i\<close> is the target.\<close>

lemma rehash_data_match:
  assumes "i < length ds"
    and "commitments K E c (map (Pair s) ds) ! i = vhash"
    and "\<forall>j < length ds. j \<noteq> i \<longrightarrow> commitments K E c (map (Pair s) ds) ! j \<noteq> vhash"
  shows "foldl (rehash_data K E vhash s) (c, False, updated) ds
     = (foldHash K E c (map (Pair s) ds), True, updated @ drop (Suc i) ds)"
  using assms
proof (induction ds arbitrary: c i)
  case Nil
  then show ?case by simp
next
  case (Cons d ds)
  show ?case
  proof (cases i)
    case 0
    have h: "hash K E c s d = vhash"
      using Cons.prems(2) 0 by simp
    have "\<forall>j < length ds. commitments K E vhash (map (Pair s) ds) ! j \<noteq> vhash"
    proof (intro allI impI)
      fix j assume "j < length ds"
      then show "commitments K E vhash (map (Pair s) ds) ! j \<noteq> vhash"
        using Cons.prems(3) [rule_format, of "Suc j"] 0 h by simp
    qed
    then have "vhash \<notin> set (commitments K E vhash (map (Pair s) ds))"
      by (auto simp: in_set_conv_nth)
    moreover have "rehash_data K E vhash s (c, False, updated) d = (vhash, True, updated)"
      using h by (simp add: rehash_data_def)
    ultimately show ?thesis
      using rehash_data_no_match [of vhash K E vhash s ds True updated] h 0
      by simp
  next
    case (Suc i')
    have n: "hash K E c s d \<noteq> vhash"
      using Cons.prems(3) [rule_format, of 0] Suc by simp
    have "foldl (rehash_data K E vhash s) (hash K E c s d, False, updated) ds
       = (foldHash K E (hash K E c s d) (map (Pair s) ds), True, updated @ drop (Suc i') ds)"
    proof (rule Cons.IH)
      show "i' < length ds" using Cons.prems(1) Suc by simp
      show "commitments K E (hash K E c s d) (map (Pair s) ds) ! i' = vhash"
        using Cons.prems(2) Suc by simp
      show "\<forall>j<length ds. j \<noteq> i' \<longrightarrow> commitments K E (hash K E c s d) (map (Pair s) ds) ! j \<noteq> vhash"
      proof (intro allI impI)
        fix j assume "j < length ds" "j \<noteq> i'"
        then show "commitments K E (hash K E c s d) (map (Pair s) ds) ! j \<noteq> vhash"
          using Cons.prems(3) [rule_format, of "Suc j"] Suc by simp
      qed
    qed
    moreover have "rehash_data K E vhash s (c, False, updated) d
        = (hash K E c s d, False, updated)"
      using n by (simp add: rehash_data_def)
    ultimately show ?thesis
      using Suc by simp
  qed
qed

text \<open>The outer loop on requests none of whose commitments is the target.\<close>

lemma rehash_request_no_match:
  "vhash \<notin> set (commitments K E c (flatten requests)) \<Longrightarrow>
   foldl (rehash_request K E vhash) (rehashed, c, found) requests
     = (if found then rehashed @ filter (\<lambda>request. data request \<noteq> []) requests else rehashed,
        foldHash K E c (flatten requests), found)"
proof (induction requests arbitrary: c rehashed)
  case Nil
  then show ?case by simp
next
  case (Cons r rs)
  let ?c' = "foldHash K E c (map (Pair (schema r)) (data r))"
  have a: "vhash \<notin> set (commitments K E c (map (Pair (schema r)) (data r)))"
    and b: "vhash \<notin> set (commitments K E ?c' (flatten rs))"
    using Cons.prems by (simp_all add: flatten_Cons commitments_append)
  have step: "rehash_request K E vhash (rehashed, c, found) r
      = (if found \<and> data r \<noteq> [] then rehashed @ [\<lparr> schema = schema r, data = data r \<rparr>]
         else rehashed, ?c', found)"
    by (simp add: rehash_request_def rehash_data_no_match [OF a])
  show ?case
    using Cons.IH [OF b] by (simp add: step flatten_Cons foldHash_append)
qed

text \<open>The outer loop on requests where exactly the commitment at index \<open>i\<close> is the target.\<close>

lemma rehash_request_match:
  assumes "i < length (flatten requests)"
    and "commitments K E c (flatten requests) ! i = vhash"
    and "\<forall>j < length (flatten requests). j \<noteq> i
           \<longrightarrow> commitments K E c (flatten requests) ! j \<noteq> vhash"
  shows "foldl (rehash_request K E vhash) (rehashed, c, False) requests
     = (rehashed @ remaining (Suc i) requests, foldHash K E c (flatten requests), True)"
  using assms
proof (induction requests arbitrary: c i rehashed)
  case Nil
  then show ?case by simp
next
  case (Cons r rs)
  let ?T = "map (Pair (schema r)) (data r)"
  let ?c' = "foldHash K E c ?T"
  let ?n = "length (data r)"
  have cm: "commitments K E c (flatten (r # rs))
      = commitments K E c ?T @ commitments K E ?c' (flatten rs)"
    by (simp add: flatten_Cons commitments_append)
  have len: "length (flatten (r # rs)) = ?n + length (flatten rs)"
    by (simp add: flatten_Cons)
  show ?case
  proof (cases "i < ?n")
    case True
    have m: "commitments K E c ?T ! i = vhash"
      using Cons.prems(2) True by (simp add: cm nth_append)
    have u: "\<forall>j < ?n. j \<noteq> i \<longrightarrow> commitments K E c ?T ! j \<noteq> vhash"
    proof (intro allI impI)
      fix j assume j: "j < ?n" "j \<noteq> i"
      then have "j < length (flatten (r # rs))" by (simp add: len)
      then have "commitments K E c (flatten (r # rs)) ! j \<noteq> vhash"
        using Cons.prems(3) j by blast
      then show "commitments K E c ?T ! j \<noteq> vhash"
        using j by (simp add: cm nth_append)
    qed
    have "\<forall>j < length (flatten rs). commitments K E ?c' (flatten rs) ! j \<noteq> vhash"
    proof (intro allI impI)
      fix j assume j: "j < length (flatten rs)"
      then have "?n + j < length (flatten (r # rs))" "?n + j \<noteq> i"
        using True by (simp_all add: len)
      then have "commitments K E c (flatten (r # rs)) ! (?n + j) \<noteq> vhash"
        using Cons.prems(3) by blast
      then show "commitments K E ?c' (flatten rs) ! j \<noteq> vhash"
        by (simp add: cm nth_append)
    qed
    then have rest: "vhash \<notin> set (commitments K E ?c' (flatten rs))"
      by (auto simp: in_set_conv_nth)
    have step: "rehash_request K E vhash (rehashed, c, False) r
        = (if drop (Suc i) (data r) \<noteq> []
           then rehashed @ [\<lparr> schema = schema r, data = drop (Suc i) (data r) \<rparr>]
           else rehashed, ?c', True)"
      using rehash_data_match [OF True m u, of "[]"] by (simp add: rehash_request_def)
    have rem: "remaining (Suc i) (r # rs)
        = filter (\<lambda>request. data request \<noteq> [])
            (\<lparr> schema = schema r, data = drop (Suc i) (data r) \<rparr> # rs)"
      using True by (simp add: remaining_def)
    show ?thesis
      using rehash_request_no_match [OF rest, of _ True]
      by (simp add: step rem flatten_Cons foldHash_append)
  next
    case False
    have "\<forall>j < ?n. commitments K E c ?T ! j \<noteq> vhash"
    proof (intro allI impI)
      fix j assume j: "j < ?n"
      then have "j < length (flatten (r # rs))" "j \<noteq> i"
        using False by (simp_all add: len)
      then have "commitments K E c (flatten (r # rs)) ! j \<noteq> vhash"
        using Cons.prems(3) by blast
      then show "commitments K E c ?T ! j \<noteq> vhash"
        using j by (simp add: cm nth_append)
    qed
    then have a: "vhash \<notin> set (commitments K E c ?T)"
      by (auto simp: in_set_conv_nth)
    have step: "rehash_request K E vhash (rehashed, c, False) r = (rehashed, ?c', False)"
      by (simp add: rehash_request_def rehash_data_no_match [OF a])
    have i1: "i - ?n < length (flatten rs)"
      using Cons.prems(1) False by (simp add: len)
    have i2: "commitments K E ?c' (flatten rs) ! (i - ?n) = vhash"
      using Cons.prems(2) False by (simp add: cm nth_append)
    have i3: "\<forall>j < length (flatten rs). j \<noteq> i - ?n
        \<longrightarrow> commitments K E ?c' (flatten rs) ! j \<noteq> vhash"
    proof (intro allI impI)
      fix j assume j: "j < length (flatten rs)" "j \<noteq> i - ?n"
      then have "?n + j < length (flatten (r # rs))" "?n + j \<noteq> i"
        using False by (simp_all add: len)
      then have "commitments K E c (flatten (r # rs)) ! (?n + j) \<noteq> vhash"
        using Cons.prems(3) by blast
      then show "commitments K E ?c' (flatten rs) ! j \<noteq> vhash"
        by (simp add: cm nth_append)
    qed
    have rem: "remaining (Suc i) (r # rs) = remaining (Suc (i - ?n)) rs"
      using False by (simp add: remaining_def Suc_diff_le)
    show ?thesis
      using Cons.IH [OF i1 i2 i3, of rehashed]
      by (simp add: step rem flatten_Cons foldHash_append)
  qed
qed

lemma no_prefix_fold_iff:
  "(\<forall>j \<in> {1..length es}. foldHash K E c (take j es) \<noteq> vhash)
     = (vhash \<notin> set (commitments K E c es))"
proof
  assume a: "\<forall>j \<in> {1..length es}. foldHash K E c (take j es) \<noteq> vhash"
  show "vhash \<notin> set (commitments K E c es)"
  proof
    assume "vhash \<in> set (commitments K E c es)"
    then obtain i where i: "i < length es" "commitments K E c es ! i = vhash"
      by (auto simp: in_set_conv_nth)
    then have "foldHash K E c (take (Suc i) es) = vhash"
      by (simp add: commitments_nth)
    moreover have "Suc i \<in> {1..length es}" using i by simp
    ultimately show False using a by blast
  qed
next
  assume a: "vhash \<notin> set (commitments K E c es)"
  show "\<forall>j \<in> {1..length es}. foldHash K E c (take j es) \<noteq> vhash"
  proof
    fix j assume j: "j \<in> {1..length es}"
    then obtain i where i: "j = Suc i" "i < length es"
      by (cases j) auto
    then have "commitments K E c es ! i \<in> set (commitments K E c es)"
      by simp
    then show "foldHash K E c (take j es) \<noteq> vhash"
      using a i by (auto simp: commitments_nth)
  qed
qed

lemma flatten_nonempty:
  "flatten (filter (\<lambda>request. data request \<noteq> []) requests) = flatten requests"
  by (induction requests) (auto simp: flatten_Cons)

lemma flatten_drop_entries: "flatten (drop_entries k requests) = drop k (flatten requests)"
  by (induction requests arbitrary: k) (auto simp: flatten_Cons drop_map)

lemma flatten_remaining: "flatten (remaining k requests) = drop k (flatten requests)"
  by (simp add: remaining_def flatten_nonempty flatten_drop_entries)

lemma demo_flatten:
  "flatten demo_requests
     = [(''A'', demo_entry ''r1''), (''A'', demo_entry ''r2''), (''C'', demo_entry ''r3'')]"
  by (simp add: flatten_def demo_requests_def)

lemma demo_hash:
  "hash demo_keccak256 demo_encode c s (demo_entry p) = c @ s @ ''0x01'' @ p"
  by (simp add: hash_def demo_keccak256_def demo_encode_def demo_entry_def)

lemma length_HashZero: "length HashZero = 66"
  by (simp add: HashZero_def)

lemma demo_prefix_folds:
  "foldHash demo_keccak256 demo_encode HashZero (take 0 (flatten demo_requests)) = HashZero"
  "foldHash demo_keccak256 demo_encode HashZero (take (Suc 0) (flatten demo_requests))
     = HashZero @ ''A0x01r1''"
  "foldHash demo_keccak256 demo_encode HashZero (take (Suc (Suc 0)) (flatten demo_requests))
     = HashZero @ ''A0x01r1A0x01r2''"
  "foldHash demo_keccak256 demo_encode HashZero (take (Suc (Suc (Suc 0))) (flatten demo_requests))
     = HashZero @ ''A0x01r1A0x01r2C0x01r3''"
  by (simp_all add: demo_flatten demo_hash)

lemma demo_commitments:
  "commitments demo_keccak256 demo_encode HashZero (flatten demo_requests)
     = [HashZero @ ''A0x01r1'', HashZero @ ''A0x01r1A0x01r2'',
        HashZero @ ''A0x01r1A0x01r2C0x01r3'']"
  by (simp add: demo_flatten demo_hash)

lemma demo_rehash_zero:
  "rehash demo_keccak256 demo_encode HashZero demo_requests = Inr demo_requests"
proof -
  have "HashZero \<notin> set (commitments demo_keccak256 demo_encode HashZero (flatten demo_requests))"
    by (simp add: demo_commitments)
  then have "foldl (rehash_request demo_keccak256 demo_encode HashZero) ([], HashZero, False)
        demo_requests
      = ([], foldHash demo_keccak256 demo_encode HashZero (flatten demo_requests), False)"
    by (simp add: rehash_request_no_match)
  then show ?thesis
    by (simp add: rehash_def)
qed

text \<open>
  C6. When no commitment that \<open>rehash\<close> computes (the folds over the non-empty prefixes of
  the collection) is the target, \<open>rehash\<close> returns the collection unchanged if the target
  is the zero commitment, and fails with the error \<^verbatim>\<open>verification hash mismatch\<close>
  otherwise.
\<close>

theorem rehash_no_match:
  assumes "\<forall>j \<in> {1..length (flatten requests)}.
             foldHash keccak256 encode HashZero (take j (flatten requests)) \<noteq> vhash"
  shows "rehash keccak256 encode vhash requests
     = (if vhash = HashZero then Inr requests
        else Inl (Error ''verification hash mismatch''))"
proof -
  have "vhash \<notin> set (commitments keccak256 encode HashZero (flatten requests))"
    using assms unfolding no_prefix_fold_iff by assumption
  then have "foldl (rehash_request keccak256 encode vhash) ([], HashZero, False) requests
      = ([], foldHash keccak256 encode HashZero (flatten requests), False)"
    by (simp add: rehash_request_no_match)
  then show ?thesis
    by (simp add: rehash_def)
qed

theorem rehash_no_match_witness:
  "rehash demo_keccak256 demo_encode HashZero demo_requests = Inr demo_requests
   \<and> rehash demo_keccak256 demo_encode ''0xdead'' demo_requests
       = Inl (Error ''verification hash mismatch'')"
proof -
  have z: "\<forall>j \<in> {1..length (flatten demo_requests)}.
      foldHash demo_keccak256 demo_encode HashZero (take j (flatten demo_requests)) \<noteq> HashZero"
    by (simp only: no_prefix_fold_iff demo_commitments) simp
  have d: "\<forall>j \<in> {1..length (flatten demo_requests)}.
      foldHash demo_keccak256 demo_encode HashZero (take j (flatten demo_requests)) \<noteq> ''0xdead''"
    by (simp only: no_prefix_fold_iff demo_commitments) (auto simp: HashZero_def)
  have "length ''0xdead'' \<noteq> length HashZero"
    by (simp add: length_HashZero)
  then have "''0xdead'' \<noteq> HashZero"
    by metis
  then show ?thesis
    using rehash_no_match [OF z] rehash_no_match [OF d] by simp
qed

text \<open>
  C3, as the code has it. Let the target be the fold of \<open>hash\<close> from the zero commitment
  over the first \<open>k\<close> attestations of the collection, and let no other prefix of the
  collection fold to the same value. Then \<open>rehash\<close> returns a collection whose
  attestations are those after position \<open>k\<close>, each under its schema. For \<open>k = 0\<close> it is the
  input collection itself, with the empty requests it may contain; for \<open>k > 0\<close> it is the
  collection of the remaining attestations without any empty request.
\<close>

theorem rehash_round_trip:
  assumes "k \<le> length (flatten requests)"
    and "\<forall>j \<le> length (flatten requests). j \<noteq> k \<longrightarrow>
           foldHash keccak256 encode HashZero (take j (flatten requests))
             \<noteq> foldHash keccak256 encode HashZero (take k (flatten requests))"
  shows "\<exists>rehashed.
           rehash keccak256 encode
               (foldHash keccak256 encode HashZero (take k (flatten requests))) requests
             = Inr rehashed
           \<and> flatten rehashed = drop k (flatten requests)
           \<and> rehashed = (if k = 0 then requests else remaining k requests)"
proof (cases k)
  case 0
  have "\<forall>j \<in> {1..length (flatten requests)}.
      foldHash keccak256 encode HashZero (take j (flatten requests)) \<noteq> HashZero"
    using assms(2) 0 by simp
  then have "HashZero \<notin> set (commitments keccak256 encode HashZero (flatten requests))"
    unfolding no_prefix_fold_iff by assumption
  then have "foldl (rehash_request keccak256 encode HashZero) ([], HashZero, False) requests
      = ([], foldHash keccak256 encode HashZero (flatten requests), False)"
    by (simp add: rehash_request_no_match)
  then have "rehash keccak256 encode HashZero requests = Inr requests"
    by (simp add: rehash_def)
  then show ?thesis
    using 0 by simp
next
  case (Suc i)
  let ?v = "foldHash keccak256 encode HashZero (take k (flatten requests))"
  have i: "i < length (flatten requests)"
    using assms(1) Suc by simp
  have m: "commitments keccak256 encode HashZero (flatten requests) ! i = ?v"
    using i Suc by (simp add: commitments_nth)
  have u: "\<forall>j < length (flatten requests). j \<noteq> i
      \<longrightarrow> commitments keccak256 encode HashZero (flatten requests) ! j \<noteq> ?v"
  proof (intro allI impI)
    fix j assume j: "j < length (flatten requests)" "j \<noteq> i"
    then have "Suc j \<le> length (flatten requests)" "Suc j \<noteq> k"
      using Suc by simp_all
    then have "foldHash keccak256 encode HashZero (take (Suc j) (flatten requests)) \<noteq> ?v"
      using assms(2) by blast
    then show "commitments keccak256 encode HashZero (flatten requests) ! j \<noteq> ?v"
      using j by (simp add: commitments_nth)
  qed
  have "rehash keccak256 encode ?v requests = Inr (remaining k requests)"
    using rehash_request_match [OF i m u, of "[]"] Suc by (simp add: rehash_def)
  then show ?thesis
    using Suc by (simp add: flatten_remaining)
qed

theorem rehash_round_trip_witness:
  "rehash demo_keccak256 demo_encode
       (foldHash demo_keccak256 demo_encode HashZero (take 1 (flatten demo_requests)))
       demo_requests
     = Inr [\<lparr> schema = ''A'', data = [demo_entry ''r2''] \<rparr>,
            \<lparr> schema = ''C'', data = [demo_entry ''r3''] \<rparr>]
   \<and> flatten [\<lparr> schema = ''A'', data = [demo_entry ''r2''] \<rparr>,
               \<lparr> schema = ''C'', data = [demo_entry ''r3''] \<rparr>]
       = drop 1 (flatten demo_requests)"
proof -
  have len: "length (flatten demo_requests) = 3"
    by (simp add: demo_flatten)
  have k: "1 \<le> length (flatten demo_requests)"
    by (simp add: len)
  have u: "\<forall>j \<le> length (flatten demo_requests). j \<noteq> 1 \<longrightarrow>
      foldHash demo_keccak256 demo_encode HashZero (take j (flatten demo_requests))
        \<noteq> foldHash demo_keccak256 demo_encode HashZero (take 1 (flatten demo_requests))"
  proof (intro allI impI)
    fix j :: nat
    assume "j \<le> length (flatten demo_requests)" "j \<noteq> 1"
    then have "j = 0 \<or> j = Suc (Suc 0) \<or> j = Suc (Suc (Suc 0))"
      unfolding len by arith
    then show "foldHash demo_keccak256 demo_encode HashZero (take j (flatten demo_requests))
        \<noteq> foldHash demo_keccak256 demo_encode HashZero (take 1 (flatten demo_requests))"
      by (auto simp: demo_prefix_folds)
  qed
  have r: "remaining 1 demo_requests
      = [\<lparr> schema = ''A'', data = [demo_entry ''r2''] \<rparr>,
         \<lparr> schema = ''C'', data = [demo_entry ''r3''] \<rparr>]"
    by (simp add: remaining_def demo_requests_def)
  show ?thesis
    using rehash_round_trip [OF k u] r by (simp add: demo_flatten)
qed

text \<open>
  C3 as stated asks for the remaining attestations without any empty request, for every
  \<open>k\<close>. For \<open>k = 0\<close> the code returns its input, and an empty request of the input stays:
  here no non-empty prefix folds to the zero commitment, and the result is not the
  collection without its empty request.
\<close>

theorem rehash_genesis_keeps_empty_request:
  "foldHash demo_keccak256 demo_encode HashZero (take 1 (flatten demo_requests))
      \<noteq> foldHash demo_keccak256 demo_encode HashZero (take 0 (flatten demo_requests))
   \<and> foldHash demo_keccak256 demo_encode HashZero (take 2 (flatten demo_requests))
      \<noteq> foldHash demo_keccak256 demo_encode HashZero (take 0 (flatten demo_requests))
   \<and> foldHash demo_keccak256 demo_encode HashZero (take 3 (flatten demo_requests))
      \<noteq> foldHash demo_keccak256 demo_encode HashZero (take 0 (flatten demo_requests))
   \<and> rehash demo_keccak256 demo_encode
        (foldHash demo_keccak256 demo_encode HashZero (take 0 (flatten demo_requests)))
        demo_requests
      \<noteq> Inr (remaining 0 demo_requests)"
proof -
  have "remaining 0 demo_requests \<noteq> demo_requests"
    by (simp add: remaining_def demo_requests_def)
  then show ?thesis
    by (simp add: demo_prefix_folds numeral_2_eq_2 numeral_3_eq_3 demo_rehash_zero)
qed

section \<open>The binary search and the loops of \<^verbatim>\<open>slice\<close>\<close>

text \<open>The binary search never returns less than the \<open>lo\<close> it starts from.\<close>

lemma bsearch_ge:
  "bsearch est limit request start lo hi = Inr r \<Longrightarrow> lo \<le> r"
proof (induction est limit request start lo hi rule: bsearch.induct)
  case (1 est limit request start lo hi)
  show ?case
  proof (cases "lo \<le> hi")
    case False
    then show ?thesis using "1.prems" by (simp add: bsearch.simps [of est limit request start lo hi])
  next
    case True
    let ?mid = "(lo + hi) div 2"
    show ?thesis
    proof (cases "est (schema request) (js_slice (data request) start ?mid)")
      case (Estimate e)
      show ?thesis
      proof (cases "e > limit - 100000")
        case over: True
        then show ?thesis
          using "1.IH"(1) [OF True refl Estimate over] "1.prems" True Estimate
          by (simp add: bsearch.simps [of est limit request start lo hi] Let_def)
      next
        case under: False
        have "bsearch est limit request start (?mid + 1) hi = Inr r"
          using "1.prems" True Estimate under by (simp add: bsearch.simps [of est limit request start lo hi] Let_def)
        then have "?mid + 1 \<le> r"
          using "1.IH"(2) [OF True refl Estimate under] by simp
        then show ?thesis using True by linarith
      qed
    next
      case (Throws message)
      show ?thesis
      proof (cases "str_includes message ''exceeds gas limit''
          \<or> str_includes message ''cannot estimate gas''")
        case c: True
        then show ?thesis
          using "1.IH"(3) [OF True refl Throws c] "1.prems" True Throws
          by (simp add: bsearch.simps [of est limit request start lo hi] Let_def)
      next
        case c: False
        then show ?thesis
          using "1.prems" True Throws by (simp add: bsearch.simps [of est limit request start lo hi] Let_def)
      qed
    qed
  qed
qed

text \<open>
  If the binary search returns more than the \<open>lo\<close> it starts from, the estimator accepted
  the probe that ends just below the result.
\<close>

lemma bsearch_accepted:
  "bsearch est limit request start lo hi = Inr r \<Longrightarrow> r \<noteq> lo \<Longrightarrow>
   \<exists>e. est (schema request) (js_slice (data request) start (r - 1)) = Estimate e
       \<and> e \<le> limit - 100000"
proof (induction est limit request start lo hi rule: bsearch.induct)
  case (1 est limit request start lo hi)
  show ?case
  proof (cases "lo \<le> hi")
    case False
    then show ?thesis using "1.prems" by (simp add: bsearch.simps [of est limit request start lo hi])
  next
    case True
    let ?mid = "(lo + hi) div 2"
    show ?thesis
    proof (cases "est (schema request) (js_slice (data request) start ?mid)")
      case (Estimate e)
      show ?thesis
      proof (cases "e > limit - 100000")
        case over: True
        then show ?thesis
          using "1.IH"(1) [OF True refl Estimate over] "1.prems" True Estimate
          by (simp add: bsearch.simps [of est limit request start lo hi] Let_def)
      next
        case under: False
        have b: "bsearch est limit request start (?mid + 1) hi = Inr r"
          using "1.prems" True Estimate under by (simp add: bsearch.simps [of est limit request start lo hi] Let_def)
        show ?thesis
        proof (cases "r = ?mid + 1")
          case True
          then show ?thesis using Estimate under by simp
        next
          case False
          then show ?thesis
            using "1.IH"(2) [OF True refl Estimate under b] by simp
        qed
      qed
    next
      case (Throws message)
      show ?thesis
      proof (cases "str_includes message ''exceeds gas limit''
          \<or> str_includes message ''cannot estimate gas''")
        case c: True
        then show ?thesis
          using "1.IH"(3) [OF True refl Throws c] "1.prems" True Throws
          by (simp add: bsearch.simps [of est limit request start lo hi] Let_def)
      next
        case c: False
        then show ?thesis
          using "1.prems" True Throws by (simp add: bsearch.simps [of est limit request start lo hi] Let_def)
      qed
    qed
  qed
qed

text \<open>An error of the binary search is a failure of the estimator, of the other kind.\<close>

lemma bsearch_error:
  "bsearch est limit request start lo hi = Inl err \<Longrightarrow>
   \<exists>d message. err = Error message \<and> est (schema request) d = Throws message
       \<and> \<not> exceeds_limit_failure message"
proof (induction est limit request start lo hi rule: bsearch.induct)
  case (1 est limit request start lo hi)
  show ?case
  proof (cases "lo \<le> hi")
    case False
    then show ?thesis using "1.prems" by (simp add: bsearch.simps [of est limit request start lo hi])
  next
    case True
    let ?mid = "(lo + hi) div 2"
    show ?thesis
    proof (cases "est (schema request) (js_slice (data request) start ?mid)")
      case (Estimate e)
      show ?thesis
      proof (cases "e > limit - 100000")
        case over: True
        then show ?thesis
          using "1.IH"(1) [OF True refl Estimate over] "1.prems" True Estimate
          by (simp add: bsearch.simps [of est limit request start lo hi] Let_def)
      next
        case under: False
        then show ?thesis
          using "1.IH"(2) [OF True refl Estimate under] "1.prems" True Estimate
          by (simp add: bsearch.simps [of est limit request start lo hi] Let_def)
      qed
    next
      case (Throws message)
      show ?thesis
      proof (cases "str_includes message ''exceeds gas limit''
          \<or> str_includes message ''cannot estimate gas''")
        case c: True
        then show ?thesis
          using "1.IH"(3) [OF True refl Throws c] "1.prems" True Throws
          by (simp add: bsearch.simps [of est limit request start lo hi] Let_def)
      next
        case c: False
        then have "err = Error message"
          using "1.prems" True Throws by (simp add: bsearch.simps [of est limit request start lo hi] Let_def)
        then show ?thesis
          using Throws c unfolding exceeds_limit_failure_def by blast
      qed
    qed
  qed
qed

text \<open>
  The binary search takes a failure of the first kind as it takes an estimate at or over
  the limit.
\<close>

lemma bsearch_failure_as_estimate:
  "limit \<le> c \<Longrightarrow>
   bsearch (failure_as_estimate c est) limit request start lo hi
     = bsearch est limit request start lo hi"
proof (induction est limit request start lo hi rule: bsearch.induct)
  case (1 est limit request start lo hi)
  show ?case
  proof (cases "lo \<le> hi")
    case False
    then show ?thesis
      by (simp add: bsearch.simps [of _ limit request start lo hi])
  next
    case True
    let ?mid = "(lo + hi) div 2"
    let ?est' = "failure_as_estimate c est"
    show ?thesis
    proof (cases "est (schema request) (js_slice (data request) start ?mid)")
      case (Estimate e)
      then have e': "?est' (schema request) (js_slice (data request) start ?mid) = Estimate e"
        by (simp add: failure_as_estimate_def)
      show ?thesis
      proof (cases "e > limit - 100000")
        case over: True
        have "bsearch ?est' limit request start lo hi
            = bsearch ?est' limit request start lo (?mid - 1)"
          using True e' over by (subst bsearch.simps) (simp add: Let_def)
        moreover have "bsearch est limit request start lo hi
            = bsearch est limit request start lo (?mid - 1)"
          using True Estimate over by (subst bsearch.simps) (simp add: Let_def)
        ultimately show ?thesis
          using "1.IH"(1) [OF True refl Estimate over "1.prems"] by simp
      next
        case under: False
        have "bsearch ?est' limit request start lo hi
            = bsearch ?est' limit request start (?mid + 1) hi"
          using True e' under by (subst bsearch.simps) (simp add: Let_def)
        moreover have "bsearch est limit request start lo hi
            = bsearch est limit request start (?mid + 1) hi"
          using True Estimate under by (subst bsearch.simps) (simp add: Let_def)
        ultimately show ?thesis
          using "1.IH"(2) [OF True refl Estimate under "1.prems"] by simp
      qed
    next
      case (Throws message)
      show ?thesis
      proof (cases "str_includes message ''exceeds gas limit''
          \<or> str_includes message ''cannot estimate gas''")
        case c: True
        then have e': "?est' (schema request) (js_slice (data request) start ?mid) = Estimate c"
          using Throws by (simp add: failure_as_estimate_def exceeds_limit_failure_def)
        have over: "c > limit - 100000"
          using "1.prems" by simp
        have "bsearch ?est' limit request start lo hi
            = bsearch ?est' limit request start lo (?mid - 1)"
          using True e' over by (subst bsearch.simps) (simp add: Let_def)
        moreover have "bsearch est limit request start lo hi
            = bsearch est limit request start lo (?mid - 1)"
          using True Throws c by (subst bsearch.simps) (simp add: Let_def)
        ultimately show ?thesis
          using "1.IH"(3) [OF True refl Throws c "1.prems"] by simp
      next
        case c: False
        then have e': "?est' (schema request) (js_slice (data request) start ?mid)
            = Throws message"
          using Throws by (simp add: failure_as_estimate_def exceeds_limit_failure_def)
        have "bsearch ?est' limit request start lo hi = Inl (Error message)"
          using True e' c by (subst bsearch.simps) (simp add: Let_def)
        moreover have "bsearch est limit request start lo hi = Inl (Error message)"
          using True Throws c by (subst bsearch.simps) (simp add: Let_def)
        ultimately show ?thesis by simp
      qed
    qed
  qed
qed

text \<open>
  When the binary search returns the start index itself, the loop of \<open>slice\<close> makes no
  progress: it pushes an empty request and goes on from the same index, for ever.
\<close>

lemma slice_request_progress:
  assumes "slice_request est limit request start sliced = Some y"
  shows "\<not> (start < int (length (data request))
            \<and> bsearch est limit request start start (int (length (data request))) = Inr start)"
proof (rule slice_request.raw_induct
    [where P = "\<lambda>est limit request start sliced y.
        \<not> (start < int (length (data request))
           \<and> bsearch est limit request start start (int (length (data request))) = Inr start)",
      OF _ assms], goal_cases)
  case (1 f est limit request start sliced y)
  show ?case
  proof
    assume stuck: "start < int (length (data request))
        \<and> bsearch est limit request start start (int (length (data request))) = Inr start"
    then obtain sliced' where "f est limit request start sliced' = Some y"
      using 1(2) by simp
    then show False
      using 1(1) stuck by blast
  qed
qed

lemma slice_request_stuck:
  "start < int (length (data request)) \<Longrightarrow>
   bsearch est limit request start start (int (length (data request))) = Inr start \<Longrightarrow>
   slice_request est limit request start sliced = None"
  using slice_request_progress [of est limit request start sliced] by (cases "slice_request est limit request start sliced") auto

text \<open>One turn of the loop of \<open>slice\<close>.\<close>

lemma slice_request_done:
  "\<not> start < int (length (data request)) \<Longrightarrow>
   slice_request est limit request start sliced = Some (Inr sliced)"
  by (subst slice_request.simps) simp

lemma slice_request_throw:
  "start < int (length (data request)) \<Longrightarrow>
   bsearch est limit request start start (int (length (data request))) = Inl err \<Longrightarrow>
   slice_request est limit request start sliced = Some (Inl err)"
  by (subst slice_request.simps) simp

lemma slice_request_turn:
  "start < int (length (data request)) \<Longrightarrow>
   bsearch est limit request start start (int (length (data request))) = Inr lo \<Longrightarrow>
   slice_request est limit request start sliced
     = slice_request est limit request lo
         (sliced @ [\<lparr> schema = schema request,
                      data = js_slice (data request) start (max start (lo - 1)) \<rparr>])"
  by (subst slice_request.simps) simp

text \<open>What \<open>slice\<close> returns was accepted by the estimator, request by request.\<close>

lemma slice_request_accepted:
  assumes "slice_request est limit request start sliced = Some (Inr out)"
    and "\<forall>r \<in> set sliced. accepted est limit r"
  shows "\<forall>r \<in> set out. accepted est limit r"
  using assms
proof (induction "nat (int (length (data request)) - start)" arbitrary: start sliced
    rule: less_induct)
  case less
  let ?n = "int (length (data request))"
  show ?case
  proof (cases "start < ?n")
    case False
    then show ?thesis
      using less.prems by (simp add: slice_request_done)
  next
    case True
    show ?thesis
    proof (cases "bsearch est limit request start start ?n")
      case (Inl err)
      then show ?thesis
        using less.prems True by (simp add: slice_request_throw)
    next
      case (Inr lo)
      let ?new = "\<lparr> schema = schema request,
          data = js_slice (data request) start (max start (lo - 1)) \<rparr>"
      have rec: "slice_request est limit request lo (sliced @ [?new]) = Some (Inr out)"
        using less.prems(1) by (simp add: slice_request_turn [OF True Inr])
      have "lo \<noteq> start"
        using slice_request_progress [OF less.prems(1)] True Inr by auto
      moreover have "start \<le> lo"
        using bsearch_ge [OF Inr] .
      ultimately have gt: "start < lo" by simp
      have "accepted est limit ?new"
        using bsearch_accepted [OF Inr] gt by (simp add: accepted_def max_def)
      then have ok: "\<forall>r \<in> set (sliced @ [?new]). accepted est limit r"
        using less.prems(2) by simp
      have "nat (?n - lo) < nat (?n - start)"
        using gt True by simp
      then show ?thesis
        using less.hyps [OF _ rec ok] by blast
    qed
  qed
qed

lemma slice_requests_accepted:
  "slice_requests est limit requests sliced = Some (Inr out) \<Longrightarrow>
   \<forall>r \<in> set sliced. accepted est limit r \<Longrightarrow>
   \<forall>r \<in> set out. accepted est limit r"
proof (induction requests arbitrary: sliced)
  case Nil
  then show ?case by simp
next
  case (Cons request requests)
  from Cons.prems(1) obtain sliced' where
    a: "slice_request est limit request 0 sliced = Some (Inr sliced')"
    and b: "slice_requests est limit requests sliced' = Some (Inr out)"
    by (auto split: option.splits sum.splits)
  show ?case
    using Cons.IH [OF b slice_request_accepted [OF a Cons.prems(2)]] .
qed

text \<open>An error of \<open>slice\<close> is a failure of the estimator, of the other kind.\<close>

lemma slice_request_error:
  assumes "slice_request est limit request start sliced = Some (Inl err)"
  shows "\<exists>d message. err = Error message \<and> est (schema request) d = Throws message
        \<and> \<not> exceeds_limit_failure message"
proof -
  have "\<forall>e. (Inl err :: error + MultiAttestationRequest list) = Inl e \<longrightarrow>
     (\<exists>d message. e = Error message \<and> est (schema request) d = Throws message
        \<and> \<not> exceeds_limit_failure message)"
  proof (rule slice_request.raw_induct
      [where P = "\<lambda>est limit request start sliced y. \<forall>err. y = Inl err \<longrightarrow>
          (\<exists>d message. err = Error message \<and> est (schema request) d = Throws message
             \<and> \<not> exceeds_limit_failure message)",
        OF _ assms], goal_cases)
    case (1 f est limit request start sliced y)
    show ?case
    proof (cases "start < int (length (data request))")
      case False
      then show ?thesis using 1(2) by auto
    next
      case True
      show ?thesis
      proof (cases "bsearch est limit request start start (int (length (data request)))")
        case (Inl err)
        then show ?thesis
          using 1(2) True bsearch_error [OF Inl] by auto
      next
        case (Inr lo)
        then obtain sliced' where "f est limit request lo sliced' = Some y"
          using 1(2) True by simp
        then show ?thesis
          using 1(1) by blast
      qed
    qed
  qed
  then show ?thesis by blast
qed

lemma slice_requests_error:
  "slice_requests est limit requests sliced = Some (Inl err) \<Longrightarrow>
   \<exists>s d message. err = Error message \<and> est s d = Throws message
       \<and> \<not> exceeds_limit_failure message"
proof (induction requests arbitrary: sliced)
  case Nil
  then show ?case by simp
next
  case (Cons request requests)
  show ?case
  proof (cases "slice_request est limit request 0 sliced")
    case None
    then show ?thesis using Cons.prems by simp
  next
    case (Some y)
    show ?thesis
    proof (cases y)
      case (Inl e)
      then have "slice_request est limit request 0 sliced = Some (Inl err)"
        using Cons.prems Some by simp
      then show ?thesis
        using slice_request_error by blast
    next
      case (Inr sliced')
      then show ?thesis
        using Cons.IH [of sliced'] Cons.prems Some by simp
    qed
  qed
qed

text \<open>Two estimators with the same binary searches give the same \<open>slice\<close>.\<close>

lemma slice_request_same_search_Some:
  assumes "slice_request est limit request start sliced = Some y"
    and "\<forall>start lo hi. bsearch est limit request start lo hi
            = bsearch est' limit request start lo hi"
  shows "slice_request est' limit request start sliced = Some y"
proof -
  have "(\<forall>start lo hi. bsearch est limit request start lo hi
            = bsearch est' limit request start lo hi)
     \<longrightarrow> slice_request est' limit request start sliced = Some y"
  proof (rule slice_request.raw_induct
      [where P = "\<lambda>est limit request start sliced y.
          (\<forall>start lo hi. bsearch est limit request start lo hi
             = bsearch est' limit request start lo hi)
          \<longrightarrow> slice_request est' limit request start sliced = Some y",
        OF _ assms(1)], goal_cases)
    case (1 f est limit request start sliced y)
    show ?case
    proof
      assume same: "\<forall>start lo hi. bsearch est limit request start lo hi
          = bsearch est' limit request start lo hi"
      show "slice_request est' limit request start sliced = Some y"
      proof (cases "start < int (length (data request))")
        case False
        then show ?thesis
          using 1(2) by (simp add: slice_request_done)
      next
        case True
        show ?thesis
        proof (cases "bsearch est limit request start start (int (length (data request)))")
          case (Inl err)
          then have "bsearch est' limit request start start (int (length (data request)))
              = Inl err"
            using same by simp
          then show ?thesis
            using 1(2) True Inl by (simp add: slice_request_throw)
        next
          case (Inr lo)
          let ?new = "\<lparr> schema = schema request,
              data = js_slice (data request) start (max start (lo - 1)) \<rparr>"
          have b: "bsearch est' limit request start start (int (length (data request)))
              = Inr lo"
            using same Inr by simp
          have "f est limit request lo (sliced @ [?new]) = Some y"
            using 1(2) True Inr by simp
          then have "slice_request est' limit request lo (sliced @ [?new]) = Some y"
            using 1(1) same by blast
          then show ?thesis
            by (simp add: slice_request_turn [OF True b])
        qed
      qed
    qed
  qed
  then show ?thesis using assms(2) by blast
qed

lemma slice_request_same_search:
  assumes "\<forall>start lo hi. bsearch est limit request start lo hi
            = bsearch est' limit request start lo hi"
  shows "slice_request est limit request start sliced
     = slice_request est' limit request start sliced"
proof (cases "slice_request est limit request start sliced")
  case (Some y)
  then show ?thesis
    using slice_request_same_search_Some [OF Some assms] by simp
next
  case None
  show ?thesis
  proof (cases "slice_request est' limit request start sliced")
    case n: None
    then show ?thesis using None by simp
  next
    case (Some y)
    have "\<forall>start lo hi. bsearch est' limit request start lo hi
        = bsearch est limit request start lo hi"
      using assms by simp
    then have "slice_request est limit request start sliced = Some y"
      using slice_request_same_search_Some [OF Some] by blast
    then show ?thesis using None by simp
  qed
qed

lemma slice_requests_failure_as_estimate:
  "limit \<le> c \<Longrightarrow>
   slice_requests (failure_as_estimate c est) limit requests sliced
     = slice_requests est limit requests sliced"
proof (induction requests arbitrary: sliced)
  case Nil
  show ?case by simp
next
  case (Cons request requests)
  have "slice_request (failure_as_estimate c est) limit request 0 sliced
      = slice_request est limit request 0 sliced"
    using Cons.prems by (intro slice_request_same_search) (simp add: bsearch_failure_as_estimate)
  then show ?case
    using Cons.IH [OF Cons.prems] by (simp split: option.splits sum.splits)
qed

text \<open>
  A failure of the other kind at a probe the search comes to ends the search, the loop
  over the request and the loop over the requests with the error of its message.
\<close>

lemma search_probes_abort:
  assumes "search_probes est limit request start lo hi mid"
    and "est (schema request) (js_slice (data request) start mid) = Throws message"
    and "\<not> exceeds_limit_failure message"
  shows "bsearch est limit request start lo hi = Inl (Error message)"
  using assms
proof (induction rule: search_probes.induct)
  case (middle lo hi est limit request start)
  then show ?case
    by (subst bsearch.simps) (simp add: Let_def exceeds_limit_failure_def)
next
  case (over lo hi est request start e limit mid)
  then show ?case
    by (subst bsearch.simps) (simp add: Let_def)
next
  case (under lo hi est request start e limit mid)
  then show ?case
    by (subst bsearch.simps) (simp add: Let_def)
next
  case (narrowed lo hi est request start message' limit mid)
  then show ?case
    by (subst bsearch.simps) (simp add: Let_def)
qed

lemma request_probes_abort:
  assumes "request_probes est limit request start start' mid"
    and "est (schema request) (js_slice (data request) start' mid) = Throws message"
    and "\<not> exceeds_limit_failure message"
  shows "slice_request est limit request start sliced = Some (Inl (Error message))"
  using assms
proof (induction arbitrary: sliced rule: request_probes.induct)
  case (search start request est limit mid)
  then show ?case
    by (simp add: slice_request_throw search_probes_abort)
next
  case (turn start request est limit lo start' mid)
  then show ?case
    by (simp add: slice_request_turn)
qed

lemma slice_probes_abort:
  assumes "slice_probes est limit requests sliced request start mid"
    and "est (schema request) (js_slice (data request) start mid) = Throws message"
    and "\<not> exceeds_limit_failure message"
  shows "slice_requests est limit requests sliced = Some (Inl (Error message))"
  using assms
proof (induction rule: slice_probes.induct)
  case (first est limit request start mid requests sliced)
  then show ?case
    by (simp add: request_probes_abort)
next
  case (later est limit request sliced sliced' requests request' start mid)
  then show ?case
    by simp
qed

text \<open>Conversely, an error comes from a failure of the other kind at such a probe.\<close>

lemma bsearch_error_probe:
  "bsearch est limit request start lo hi = Inl err \<Longrightarrow>
   \<exists>mid message. search_probes est limit request start lo hi mid
       \<and> est (schema request) (js_slice (data request) start mid) = Throws message
       \<and> \<not> exceeds_limit_failure message \<and> err = Error message"
proof (induction est limit request start lo hi rule: bsearch.induct)
  case (1 est limit request start lo hi)
  show ?case
  proof (cases "lo \<le> hi")
    case False
    then show ?thesis
      using "1.prems" by (simp add: bsearch.simps [of est limit request start lo hi])
  next
    case True
    let ?mid = "(lo + hi) div 2"
    show ?thesis
    proof (cases "est (schema request) (js_slice (data request) start ?mid)")
      case (Estimate e)
      show ?thesis
      proof (cases "e > limit - 100000")
        case over: True
        have "bsearch est limit request start lo (?mid - 1) = Inl err"
          using "1.prems" True Estimate over
          by (simp add: bsearch.simps [of est limit request start lo hi] Let_def)
        then obtain mid message where p:
            "search_probes est limit request start lo (?mid - 1) mid"
            "est (schema request) (js_slice (data request) start mid) = Throws message"
            "\<not> exceeds_limit_failure message" "err = Error message"
          using "1.IH"(1) [OF True refl Estimate over] by blast
        have "search_probes est limit request start lo hi mid"
          by (rule search_probes.over [where est = est and limit = limit and request = request and start = start and lo = lo and hi = hi and e = e and mid = mid])
            (use True Estimate over p(1) in simp_all)
        then show ?thesis
          using p by blast
      next
        case under: False
        have "bsearch est limit request start (?mid + 1) hi = Inl err"
          using "1.prems" True Estimate under
          by (simp add: bsearch.simps [of est limit request start lo hi] Let_def)
        then obtain mid message where p:
            "search_probes est limit request start (?mid + 1) hi mid"
            "est (schema request) (js_slice (data request) start mid) = Throws message"
            "\<not> exceeds_limit_failure message" "err = Error message"
          using "1.IH"(2) [OF True refl Estimate under] by blast
        have "search_probes est limit request start lo hi mid"
          by (rule search_probes.under [where est = est and limit = limit and request = request and start = start and lo = lo and hi = hi and e = e and mid = mid])
            (use True Estimate under p(1) in simp_all)
        then show ?thesis
          using p by blast
      qed
    next
      case (Throws message)
      show ?thesis
      proof (cases "str_includes message ''exceeds gas limit''
          \<or> str_includes message ''cannot estimate gas''")
        case c: True
        have "bsearch est limit request start lo (?mid - 1) = Inl err"
          using "1.prems" True Throws c
          by (simp add: bsearch.simps [of est limit request start lo hi] Let_def)
        then obtain mid message' where p:
            "search_probes est limit request start lo (?mid - 1) mid"
            "est (schema request) (js_slice (data request) start mid) = Throws message'"
            "\<not> exceeds_limit_failure message'" "err = Error message'"
          using "1.IH"(3) [OF True refl Throws c] by blast
        have "search_probes est limit request start lo hi mid"
          by (rule search_probes.narrowed [where est = est and limit = limit and request = request and start = start and lo = lo and hi = hi and message = message and mid = mid])
            (use True Throws c p(1) in simp_all)
        then show ?thesis
          using p by blast
      next
        case c: False
        then have "err = Error message"
          using "1.prems" True Throws
          by (simp add: bsearch.simps [of est limit request start lo hi] Let_def)
        moreover have "search_probes est limit request start lo hi ?mid"
          using True by (rule search_probes.middle)
        moreover have "\<not> exceeds_limit_failure message"
          using c by (simp add: exceeds_limit_failure_def)
        ultimately show ?thesis
          using Throws by blast
      qed
    qed
  qed
qed

lemma slice_request_error_probe:
  assumes "slice_request est limit request start sliced = Some (Inl err)"
  shows "\<exists>start' mid message. request_probes est limit request start start' mid
        \<and> est (schema request) (js_slice (data request) start' mid) = Throws message
        \<and> \<not> exceeds_limit_failure message \<and> err = Error message"
proof -
  have "\<forall>e. (Inl err :: error + MultiAttestationRequest list) = Inl e \<longrightarrow>
     (\<exists>start' mid message. request_probes est limit request start start' mid
        \<and> est (schema request) (js_slice (data request) start' mid) = Throws message
        \<and> \<not> exceeds_limit_failure message \<and> e = Error message)"
  proof (rule slice_request.raw_induct
      [where P = "\<lambda>est limit request start sliced y. \<forall>e. y = Inl e \<longrightarrow>
          (\<exists>start' mid message. request_probes est limit request start start' mid
             \<and> est (schema request) (js_slice (data request) start' mid) = Throws message
             \<and> \<not> exceeds_limit_failure message \<and> e = Error message)",
        OF _ assms], goal_cases)
    case (1 f est limit request start sliced y)
    show ?case
    proof (cases "start < int (length (data request))")
      case False
      then show ?thesis using 1(2) by auto
    next
      case True
      show ?thesis
      proof (cases "bsearch est limit request start start (int (length (data request)))")
        case (Inl e)
        then have "y = Inl e"
          using 1(2) True by simp
        moreover obtain mid message where p:
            "search_probes est limit request start start (int (length (data request))) mid"
            "est (schema request) (js_slice (data request) start mid) = Throws message"
            "\<not> exceeds_limit_failure message" "e = Error message"
          using bsearch_error_probe [OF Inl] by blast
        moreover have "request_probes est limit request start start mid"
          using True p(1) by (rule request_probes.search)
        ultimately show ?thesis
          by blast
      next
        case (Inr lo)
        then obtain sliced' where "f est limit request lo sliced' = Some y"
          using 1(2) True by simp
        then have ih: "\<forall>e. y = Inl e \<longrightarrow>
            (\<exists>start' mid message. request_probes est limit request lo start' mid
               \<and> est (schema request) (js_slice (data request) start' mid) = Throws message
               \<and> \<not> exceeds_limit_failure message \<and> e = Error message)"
          by (rule 1(1))
        show ?thesis
        proof (intro allI impI)
          fix e assume "y = Inl e"
          then obtain start' mid message where p:
              "request_probes est limit request lo start' mid"
              "est (schema request) (js_slice (data request) start' mid) = Throws message"
              "\<not> exceeds_limit_failure message" "e = Error message"
            using ih by blast
          have "request_probes est limit request start start' mid"
            using True Inr p(1) by (rule request_probes.turn)
          then show "\<exists>start' mid message. request_probes est limit request start start' mid
               \<and> est (schema request) (js_slice (data request) start' mid) = Throws message
               \<and> \<not> exceeds_limit_failure message \<and> e = Error message"
            using p by blast
        qed
      qed
    qed
  qed
  then show ?thesis by blast
qed

lemma slice_requests_error_probe:
  "slice_requests est limit requests sliced = Some (Inl err) \<Longrightarrow>
   \<exists>request start mid message. slice_probes est limit requests sliced request start mid
       \<and> est (schema request) (js_slice (data request) start mid) = Throws message
       \<and> \<not> exceeds_limit_failure message \<and> err = Error message"
proof (induction requests arbitrary: sliced)
  case Nil
  then show ?case by simp
next
  case (Cons request requests)
  show ?case
  proof (cases "slice_request est limit request 0 sliced")
    case None
    then show ?thesis using Cons.prems by simp
  next
    case (Some y)
    show ?thesis
    proof (cases y)
      case (Inl e)
      then have "slice_request est limit request 0 sliced = Some (Inl err)"
        using Cons.prems Some by simp
      then obtain start mid message where p:
          "request_probes est limit request 0 start mid"
          "est (schema request) (js_slice (data request) start mid) = Throws message"
          "\<not> exceeds_limit_failure message" "err = Error message"
        using slice_request_error_probe by blast
      have "slice_probes est limit (request # requests) sliced request start mid"
        using p(1) by (rule slice_probes.first)
      then show ?thesis
        using p by blast
    next
      case (Inr sliced')
      then have s: "slice_request est limit request 0 sliced = Some (Inr sliced')"
        using Some by simp
      have "slice_requests est limit requests sliced' = Some (Inl err)"
        using Cons.prems s by simp
      then obtain request' start mid message where p:
          "slice_probes est limit requests sliced' request' start mid"
          "est (schema request') (js_slice (data request') start mid) = Throws message"
          "\<not> exceeds_limit_failure message" "err = Error message"
        using Cons.IH [of sliced'] by blast
      have "slice_probes est limit (request # requests) sliced request' start mid"
        using s p(1) by (rule slice_probes.later)
      then show ?thesis
        using p by blast
    qed
  qed
qed

lemma slice_demo_attester:
  "slice (demo_attester est) requests = slice_requests est 30000000 requests []"
  by (simp add: slice_def demo_attester_def)

text \<open>
  C1, at an input where the code loses an attestation. The estimator accepts one
  attestation and fails with \<^verbatim>\<open>exceeds gas limit\<close> on two. The binary search ends with
  \<open>lo = 2\<close>: the request sliced is \<^verbatim>\<open>data.slice(0, 1)\<close>, the next start is \<open>2\<close>, and the
  attestation at index \<open>1\<close> is in no request of the result.
\<close>

theorem slice_loses_attestation:
  "slice (demo_attester two_exceed) [demo_request]
     = Some (Inr [\<lparr> schema = ''A'', data = [demo_entry ''r1''] \<rparr>])
   \<and> data demo_request = [demo_entry ''r1'', demo_entry ''r3'']"
  by code_simp

text \<open>
  C2, at an input where the code does not return. Every estimate fails with
  \<^verbatim>\<open>cannot estimate gas\<close>, also the one of the empty range: the binary search ends with
  \<open>lo = start\<close>, an empty request is pushed, and the loop goes on from the same start.
\<close>

theorem slice_never_returns:
  "slice (demo_attester always_reverts) [demo_request] = None"
proof -
  have n: "(0::int) < int (length (data demo_request))"
    by (simp add: demo_request_def)
  have "bsearch always_reverts 30000000 demo_request 0 0 2 = Inr 0"
    by code_simp
  then have b: "bsearch always_reverts 30000000 demo_request 0 0
      (int (length (data demo_request))) = Inr 0"
    by (simp add: demo_request_def)
  show ?thesis
    by (simp add: slice_demo_attester slice_request_stuck [OF n b])
qed

text \<open>
  C4, as the code has it. Every request that \<open>slice\<close> returns has an estimate, by the
  estimator of the search, of at most the gas limit minus 100000.
\<close>

theorem slice_within_margin:
  assumes "estimateGas_attest att = Some attest"
    and "getBlock_gasLimit att = Inr gasLimit"
    and "admin att = Inr sender"
    and "slice att requests = Some (Inr sliced)"
  shows "\<forall>request \<in> set sliced.
           \<exists>e. attest sender (schema request) (data request) = Estimate e
               \<and> e \<le> gasLimit - 100000"
proof -
  have "slice_requests (attest sender) gasLimit requests [] = Some (Inr sliced)"
    using assms by (simp add: slice_def)
  then have "\<forall>request \<in> set sliced. accepted (attest sender) gasLimit request"
    by (rule slice_requests_accepted) simp
  then show ?thesis
    by (simp add: accepted_def)
qed

theorem slice_within_margin_witness:
  "slice (demo_attester at_margin) [demo_request] = Some (Inr [demo_request])
   \<and> (\<exists>e. at_margin (schema demo_request) (data demo_request) = Estimate e
          \<and> e \<le> 30000000 - 100000)"
proof -
  have a: "estimateGas_attest (demo_attester at_margin) = Some (\<lambda>sender. at_margin)"
    and g: "getBlock_gasLimit (demo_attester at_margin) = Inr 30000000"
    and d: "admin (demo_attester at_margin) = Inr ''0xad''"
    by (simp_all add: demo_attester_def)
  have s: "slice (demo_attester at_margin) [demo_request] = Some (Inr [demo_request])"
    by code_simp
  show ?thesis
    using slice_within_margin [OF a g d s] s by simp
qed

text \<open>
  C4 as stated asks for an estimate strictly less than the gas limit minus 100000. The
  search rejects an estimate only when it is greater than that bound: a request whose
  estimate is the bound itself is returned.
\<close>

theorem slice_returns_estimate_at_margin:
  "slice (demo_attester at_margin) [demo_request] = Some (Inr [demo_request])
   \<and> getBlock_gasLimit (demo_attester at_margin) = Inr 30000000
   \<and> \<not> strictly_under at_margin 30000000 demo_request"
proof -
  have "slice (demo_attester at_margin) [demo_request] = Some (Inr [demo_request])"
    by code_simp
  then show ?thesis
    by (simp add: strictly_under_def at_margin_def demo_attester_def)
qed

text \<open>
  C7. In the binary search, a failure of the estimator whose message includes
  \<^verbatim>\<open>exceeds gas limit\<close> or \<^verbatim>\<open>cannot estimate gas\<close> narrows the search below the probe, and
  \<open>slice\<close> as a whole is what it would be had the estimator answered there with an
  estimate at or over the gas limit. Any other failure ends the search with the error of
  that message, the loop over a request ends with the error of the search whatever has
  been sliced so far, and so does the loop over the requests. Every error that \<open>slice\<close>
  returns with an estimator is such a failure of that estimator, at a probe that the call
  comes to; and whenever the estimator fails in that other way at a probe that the call
  comes to, in whatever search of whatever request, \<open>slice\<close> returns the error of that
  message and no requests.
\<close>

theorem slice_estimator_failures:
  assumes "estimateGas_attest att = Some attest"
    and "getBlock_gasLimit att = Inr gasLimit"
    and "admin att = Inr sender"
  shows "(gasLimit \<le> c \<longrightarrow>
            slice (att\<lparr>estimateGas_attest :=
                Some (\<lambda>sender. failure_as_estimate c (attest sender))\<rparr>) requests
              = slice att requests)
   \<and> (lo \<le> hi
        \<and> attest sender (schema request) (js_slice (data request) start ((lo + hi) div 2))
            = Throws message
        \<and> exceeds_limit_failure message \<longrightarrow>
          bsearch (attest sender) gasLimit request start lo hi
            = bsearch (attest sender) gasLimit request start lo ((lo + hi) div 2 - 1))
   \<and> (lo \<le> hi
        \<and> attest sender (schema request) (js_slice (data request) start ((lo + hi) div 2))
            = Throws message
        \<and> \<not> exceeds_limit_failure message \<longrightarrow>
          bsearch (attest sender) gasLimit request start lo hi = Inl (Error message))
   \<and> (start < int (length (data request))
        \<and> bsearch (attest sender) gasLimit request start start (int (length (data request)))
            = Inl err
        \<longrightarrow> slice_request (attest sender) gasLimit request start sliced = Some (Inl err))
   \<and> (slice_request (attest sender) gasLimit request 0 sliced = Some (Inl err) \<longrightarrow>
          slice_requests (attest sender) gasLimit (request # rest) sliced = Some (Inl err))
   \<and> (slice att requests = Some (Inl err) \<longrightarrow>
          (\<exists>s d m. err = Error m \<and> attest sender s d = Throws m
               \<and> \<not> exceeds_limit_failure m))
   \<and> (slice_probes (attest sender) gasLimit requests [] probed probe_start mid
        \<and> attest sender (schema probed) (js_slice (data probed) probe_start mid) = Throws failure
        \<and> \<not> exceeds_limit_failure failure \<longrightarrow>
          slice att requests = Some (Inl (Error failure)))
   \<and> (slice att requests = Some (Inl err) \<longrightarrow>
          (\<exists>r i k m. slice_probes (attest sender) gasLimit requests [] r i k
               \<and> attest sender (schema r) (js_slice (data r) i k) = Throws m
               \<and> \<not> exceeds_limit_failure m \<and> err = Error m))"
proof -
  let ?est = "attest sender"
  have a: "gasLimit \<le> c \<longrightarrow>
      slice (att\<lparr>estimateGas_attest :=
          Some (\<lambda>sender. failure_as_estimate c (attest sender))\<rparr>) requests
        = slice att requests"
    using assms by (simp add: slice_def slice_requests_failure_as_estimate)
  have b: "lo \<le> hi
      \<and> ?est (schema request) (js_slice (data request) start ((lo + hi) div 2)) = Throws message
      \<and> exceeds_limit_failure message \<longrightarrow>
        bsearch ?est gasLimit request start lo hi
          = bsearch ?est gasLimit request start lo ((lo + hi) div 2 - 1)"
    by (subst bsearch.simps) (simp add: Let_def exceeds_limit_failure_def)
  have c: "lo \<le> hi
      \<and> ?est (schema request) (js_slice (data request) start ((lo + hi) div 2)) = Throws message
      \<and> \<not> exceeds_limit_failure message \<longrightarrow>
        bsearch ?est gasLimit request start lo hi = Inl (Error message)"
    by (subst bsearch.simps) (simp add: Let_def exceeds_limit_failure_def)
  have d: "start < int (length (data request))
      \<and> bsearch ?est gasLimit request start start (int (length (data request))) = Inl err
      \<longrightarrow> slice_request ?est gasLimit request start sliced = Some (Inl err)"
    by (simp add: slice_request_throw)
  have e: "slice_request ?est gasLimit request 0 sliced = Some (Inl err) \<longrightarrow>
      slice_requests ?est gasLimit (request # rest) sliced = Some (Inl err)"
    by simp
  have f: "slice att requests = Some (Inl err) \<longrightarrow>
      (\<exists>s d m. err = Error m \<and> ?est s d = Throws m \<and> \<not> exceeds_limit_failure m)"
    using assms slice_requests_error [of ?est gasLimit requests "[]" err]
    by (simp add: slice_def)
  have g: "slice_probes ?est gasLimit requests [] probed probe_start mid
      \<and> ?est (schema probed) (js_slice (data probed) probe_start mid) = Throws failure
      \<and> \<not> exceeds_limit_failure failure \<longrightarrow>
        slice att requests = Some (Inl (Error failure))"
    using assms by (auto simp: slice_def dest: slice_probes_abort)
  have h: "slice att requests = Some (Inl err) \<longrightarrow>
      (\<exists>r i k m. slice_probes ?est gasLimit requests [] r i k
           \<and> ?est (schema r) (js_slice (data r) i k) = Throws m
           \<and> \<not> exceeds_limit_failure m \<and> err = Error m)"
    using assms slice_requests_error_probe [of ?est gasLimit requests "[]" err]
    by (simp add: slice_def)
  show ?thesis
    using a b c d e f g h by blast
qed

text \<open>
  The theorem at two requests, where the estimator accepts all of the first and fails in
  the second search, on its second probe.
\<close>

theorem slice_estimator_failures_witness:
  "slice (demo_attester two_fail) [demo_request] = Some (Inl (Error ''network error''))
   \<and> slice (demo_attester (failure_as_estimate 30000000 two_exceed)) [demo_request]
       = slice (demo_attester two_exceed) [demo_request]
   \<and> (\<exists>s d m. two_fail s d = Throws m \<and> \<not> exceeds_limit_failure m)
   \<and> slice_probes second_fails 30000000 [demo_request, demo_request_B] [] demo_request_B 0 2
   \<and> slice (demo_attester second_fails) [demo_request, demo_request_B]
       = Some (Inl (Error ''network error''))"
proof -
  have a: "estimateGas_attest (demo_attester est) = Some (\<lambda>sender. est)"
    and g: "getBlock_gasLimit (demo_attester est) = Inr 30000000"
    and d: "admin (demo_attester est) = Inr ''0xad''" for est
    by (simp_all add: demo_attester_def)
  have u: "demo_attester two_exceed
        \<lparr>estimateGas_attest := Some (\<lambda>sender. failure_as_estimate 30000000 two_exceed)\<rparr>
      = demo_attester (failure_as_estimate 30000000 two_exceed)"
    by (simp add: demo_attester_def)
  have s: "slice (demo_attester two_fail) [demo_request] = Some (Inl (Error ''network error''))"
    by code_simp
  have "\<exists>s d m. Error ''network error'' = Error m \<and> two_fail s d = Throws m
      \<and> \<not> exceeds_limit_failure m"
    using slice_estimator_failures
      [where requests = "[demo_request]" and err = "Error ''network error''",
        OF a [of two_fail] g [of two_fail] d [of two_fail],
        THEN conjunct2, THEN conjunct2, THEN conjunct2, THEN conjunct2, THEN conjunct2,
        THEN conjunct1] s
    by (rule mp)
  then have t: "\<exists>s d m. two_fail s d = Throws m \<and> \<not> exceeds_limit_failure m"
    by blast
  have e: "slice (demo_attester (failure_as_estimate 30000000 two_exceed)) [demo_request]
      = slice (demo_attester two_exceed) [demo_request]"
    using slice_estimator_failures
      [where c = 30000000 and requests = "[demo_request]",
        OF a [of two_exceed] g [of two_exceed] d [of two_exceed], THEN conjunct1] u
    by simp
  have first_returns: "slice_request second_fails 30000000 demo_request 0 []
      = Some (Inr [demo_request])"
    by code_simp
  have len: "int (length (data demo_request_B)) = 2"
    by (simp add: demo_request_B_def)
  have accepted_one: "second_fails (schema demo_request_B)
      (js_slice (data demo_request_B) 0 ((0 + 2) div 2)) = Estimate 21000"
    by code_simp
  have m: "search_probes second_fails 30000000 demo_request_B 0 ((0 + 2) div 2 + 1) 2
      (((0 + 2) div 2 + 1 + 2) div 2)"
    by (rule search_probes.middle) simp
  have "search_probes second_fails 30000000 demo_request_B 0 0 2 2"
  proof (rule search_probes.under [where e = 21000])
    show "(0::int) \<le> 2" by simp
    show "second_fails (schema demo_request_B)
        (js_slice (data demo_request_B) 0 ((0 + 2) div 2)) = Estimate 21000"
      by (rule accepted_one)
    show "\<not> 30000000 - 100000 < (21000::int)" by simp
    show "search_probes second_fails 30000000 demo_request_B 0 ((0 + 2) div 2 + 1) 2 2"
      using m by simp
  qed
  then have "search_probes second_fails 30000000 demo_request_B 0 0
      (int (length (data demo_request_B))) 2"
    by (simp add: len)
  then have "request_probes second_fails 30000000 demo_request_B 0 0 2"
    by (intro request_probes.search) (simp add: len)
  then have p: "slice_probes second_fails 30000000 [demo_request, demo_request_B] []
      demo_request_B 0 2"
    by (intro slice_probes.later [OF first_returns] slice_probes.first)
  have fails: "second_fails (schema demo_request_B) (js_slice (data demo_request_B) 0 2)
      = Throws ''network error''"
    by code_simp
  have other: "\<not> exceeds_limit_failure ''network error''"
    by code_simp
  have "slice (demo_attester second_fails) [demo_request, demo_request_B]
      = Some (Inl (Error ''network error''))"
    using slice_estimator_failures
      [where requests = "[demo_request, demo_request_B]" and probed = demo_request_B
          and probe_start = 0 and mid = 2 and failure = "''network error''",
        OF a [of second_fails] g [of second_fails] d [of second_fails],
        THEN conjunct2, THEN conjunct2, THEN conjunct2, THEN conjunct2, THEN conjunct2,
        THEN conjunct2, THEN conjunct1] p fails other
    by simp
  then show ?thesis
    using s e t p by simp
qed

end
